theory Spec2Isabelle
  imports Main "HOL-Library.Sublist" "HOL-Library.Word"
begin

section \<open>Python values shared by the controllers\<close>

text \<open>
  A method is modelled by a function of the same name, without the leading underscore
  of a private method (\<open>_save\<close> is \<open>save\<close>, \<open>_tick\<close> is \<open>tick\<close>).
  Exceptions are values. \<open>LibraryError\<close> stands for any exception of class \<open>Exception\<close>
  raised inside the external ROM library (\<open>skytemple_files\<close>) or another collaborator;
  its argument is the message that \<open>str(exception)\<close> yields.
\<close>

datatype py_error =
    IndexError
  | OverflowError
  | ValueError
  | AssertionError
  | AttributeError
  | LibraryError string
  | KeyboardInterrupt
  | SystemExit

text \<open>
  Whether an exception is an instance of \<open>Exception\<close>. \<open>KeyboardInterrupt\<close> and
  \<open>SystemExit\<close> derive from \<open>BaseException\<close> only: a handler \<open>except BaseException\<close>
  catches them, a handler \<open>except Exception\<close> lets them pass.
\<close>

fun is_exception :: "py_error \<Rightarrow> bool" where
  "is_exception KeyboardInterrupt = False"
| "is_exception SystemExit = False"
| "is_exception e = True"

text \<open>
  \<open>xs[i]\<close> on a Python list: an index below zero counts from the end, an index outside
  \<open>-len(xs) .. len(xs) - 1\<close> raises \<open>IndexError\<close>.
\<close>

definition py_index :: "'a list \<Rightarrow> int \<Rightarrow> py_error + 'a" where
  "py_index xs i =
     (if 0 \<le> i \<and> i < int (length xs) then Inr (xs ! nat i)
      else if i < 0 \<and> - int (length xs) \<le> i then Inr (xs ! nat (int (length xs) + i))
      else Inl IndexError)"

section \<open>The monster sprite controller (\<open>module/sprite/controller/monster_sprite.py\<close>)\<close>

definition FPS :: int where
  "FPS = 30"

text \<open>
  The drawing area widget, as far as the controller uses it: whether \<open>get_parent()\<close>
  returns a widget, whether \<open>destroy()\<close> was called on it, and how many times
  \<open>queue_draw()\<close> was called on it.
\<close>

record draw_area =
  has_parent :: bool
  da_destroyed :: bool
  queued_draws :: nat

text \<open>
  The fields of \<open>MonsterSpriteController\<close> that the preview uses. An entry of
  \<open>_rendered_frame_info\<close> is the pair of a frame's duration and the rendered frame tuple
  (of type \<open>'f\<close>). \<open>_drawing_is_active\<close> starts as the integer 0 and is only ever used for its
  truth value, so it is a \<open>bool\<close> here. \<open>tick_timeouts\<close> lists the intervals (in
  milliseconds) with which \<open>_tick\<close> was handed to \<open>GLib.timeout_add\<close>.
\<close>

record 'f monster_sprite =
  frame_counter :: int
  anim_counter :: int
  drawing_is_active :: bool
  draw_area :: "draw_area option"
  rendered_frame_info :: "(int \<times> 'f) list"
  tick_timeouts :: "int list"

text \<open>The state \<open>__init__\<close> leaves, once \<open>_load_frames\<close> has stored the frames \<open>fs\<close>.\<close>

definition init_sprite :: "draw_area option \<Rightarrow> (int \<times> 'f) list \<Rightarrow> 'f monster_sprite" where
  "init_sprite da fs =
     \<lparr> frame_counter = 0, anim_counter = 0, drawing_is_active = False,
       draw_area = da, rendered_frame_info = fs, tick_timeouts = [] \<rparr>"

text \<open>
  \<open>start_sprite_drawing\<close>. The interval is \<open>int(1000 / FPS)\<close>: a true division followed
  by truncation, which for these two positive integers is the integer quotient.
  \<open>self._draw_area.queue_draw()\<close> raises \<open>AttributeError\<close> when there is no drawing area;
  the assignment before it has then already happened.
\<close>

definition start_sprite_drawing :: "'f monster_sprite \<Rightarrow> py_error option \<times> 'f monster_sprite" where
  "start_sprite_drawing s =
     (let s1 = s\<lparr>drawing_is_active := True\<rparr> in
      case draw_area s1 of
        None \<Rightarrow> (Some AttributeError, s1)
      | Some da \<Rightarrow>
          (None, s1\<lparr>draw_area := Some (da\<lparr>queued_draws := queued_draws da + 1\<rparr>),
                    tick_timeouts := tick_timeouts s1 @ [1000 div FPS]\<rparr>))"

definition stop_sprite_drawing :: "'f monster_sprite \<Rightarrow> 'f monster_sprite" where
  "stop_sprite_drawing s = s\<lparr>drawing_is_active := False\<rparr>"

text \<open>
  \<open>_tick\<close>. The argument \<open>has_focus\<close> is what
  \<open>EventManager.instance().get_if_main_window_has_fous()\<close> returns at this tick.
\<close>

definition tick :: "bool \<Rightarrow> 'f monster_sprite \<Rightarrow> bool \<times> 'f monster_sprite" where
  "tick has_focus s =
     (case draw_area s of
        None \<Rightarrow> (False, s)
      | Some da \<Rightarrow>
          if \<not> has_parent da then (False, s\<lparr>draw_area := Some (da\<lparr>da_destroyed := True\<rparr>)\<rparr>)
          else
            let s1 = (if has_focus
                      then s\<lparr>draw_area := Some (da\<lparr>queued_draws := queued_draws da + 1\<rparr>)\<rparr>
                      else s);
                s2 = s1\<lparr>frame_counter := frame_counter s1 + 1\<rparr>
            in (drawing_is_active s2, s2))"

text \<open>
  The draw area losing its parent (the toolkit removing the widget from the window) is an
  event from outside the controller.
\<close>

definition detach_draw_area :: "'f monster_sprite \<Rightarrow> 'f monster_sprite" where
  "detach_draw_area s =
     (case draw_area s of
        None \<Rightarrow> s
      | Some da \<Rightarrow> s\<lparr>draw_area := Some (da\<lparr>has_parent := False\<rparr>)\<rparr>)"

text \<open>
  The timeout source of \<open>GLib.timeout_add\<close>, after GLib's documentation: the function is
  called at each interval until it returns \<open>False\<close>, at which point the source is removed
  and the function is not called again. Between two firings the controller may be stopped
  or its drawing area detached. The boolean is whether the source still exists.
\<close>

datatype timer_event = Fire bool | StopDrawing | Detach

fun timer_step :: "timer_event \<Rightarrow> bool \<times> 'f monster_sprite \<Rightarrow> bool \<times> 'f monster_sprite" where
  "timer_step (Fire has_focus) (running, s) = (if running then tick has_focus s else (False, s))"
| "timer_step StopDrawing (running, s) = (running, stop_sprite_drawing s)"
| "timer_step Detach (running, s) = (running, detach_draw_area s)"

fun run_timer :: "timer_event list \<Rightarrow> bool \<times> 'f monster_sprite \<Rightarrow> bool \<times> 'f monster_sprite" where
  "run_timer [] st = st"
| "run_timer (e # es) st = run_timer es (timer_step e st)"

definition draws :: "'f monster_sprite \<Rightarrow> nat" where
  "draws s = (case draw_area s of None \<Rightarrow> 0 | Some da \<Rightarrow> queued_draws da)"

text \<open>
  \<open>_get_sprite_anim\<close>: returns the frame tuple of the current entry and the updated
  controller, or the \<open>IndexError\<close> of the list access.
\<close>

definition get_sprite_anim :: "'f monster_sprite \<Rightarrow> py_error + ('f \<times> 'f monster_sprite)" where
  "get_sprite_anim s =
     (case py_index (rendered_frame_info s) (anim_counter s) of
        Inl e \<Rightarrow> Inl e
      | Inr current \<Rightarrow>
          let s1 = s\<lparr>frame_counter := frame_counter s + 1\<rparr>;
              s2 = (if frame_counter s1 > fst current
                    then
                      let s3 = s1\<lparr>frame_counter := 0, anim_counter := anim_counter s1 + 1\<rparr>
                      in if anim_counter s3 \<ge> int (length (rendered_frame_info s3))
                         then s3\<lparr>anim_counter := 0\<rparr> else s3
                    else s1)
          in Inr (snd current, s2))"

text \<open>\<open>n\<close> successive calls of \<open>_get_sprite_anim\<close>, collecting the frames returned.\<close>

fun get_sprite_anims :: "nat \<Rightarrow> 'f monster_sprite \<Rightarrow> py_error + ('f list \<times> 'f monster_sprite)" where
  "get_sprite_anims 0 s = Inr ([], s)"
| "get_sprite_anims (Suc n) s =
     (case get_sprite_anim s of
        Inl e \<Rightarrow> Inl e
      | Inr (r, s') \<Rightarrow>
          (case get_sprite_anims n s' of
             Inl e \<Rightarrow> Inl e
           | Inr (rs, s'') \<Rightarrow> Inr (r # rs, s'')))"

definition anim_index_ok :: "'f monster_sprite \<Rightarrow> bool" where
  "anim_index_ok s \<longleftrightarrow> 0 \<le> anim_counter s \<and> anim_counter s < int (length (rendered_frame_info s))"

section \<open>The main window controller (\<open>controller/main.py\<close>)\<close>

text \<open>
  Objects of the toolkit and of the module system are compared by identity only, so a
  module, a controller class, a widget and a controller instance are each a number.
\<close>

type_synonym module_id = nat
type_synonym class_id = nat
type_synonym widget = nat
type_synonym ctrl = nat
type_synonym path = "nat list"

text \<open>
  A row of the item store: column 1 (the label the search looks at), columns 2, 3 and 4
  (module, controller class and item id of the view behind the row) and column 6 (the
  title shown in the tree and in the breadcrumbs). Column 7, \<open>COL_VISIBLE\<close>, is the only
  column the controller writes; it is kept apart, as a map from the path of a row to its
  flag, so that the rows themselves are fixed while the flags change. A top-level row has
  the path \<open>[i]\<close>, its \<open>j\<close>-th child \<open>[i, j]\<close>, as in \<open>Gtk.TreePath\<close>.
\<close>

record row =
  col_label :: string
  col_module :: "module_id option"
  col_class :: "class_id option"
  col_item_id :: "int option"
  col_title :: string

datatype node = Node (row_of: row) (kids: "node list")

text \<open>
  What is handed to \<open>on_view_loaded\<close> as \<open>in_view\<close>: a widget, or a controller together with
  what its \<open>get_view()\<close> does when called (raise, or return a widget). The first component
  is \<open>in_view.__class__\<close>.
\<close>

datatype view_obj =
    WidgetView class_id widget
  | ControllerView class_id ctrl "py_error + widget"

fun view_class :: "view_obj \<Rightarrow> class_id" where
  "view_class (WidgetView c w) = c"
| "view_class (ControllerView c k r) = c"

text \<open>The children of the editor stack that can be made visible.\<close>

datatype stack_child = Page string | LoadedView widget

text \<open>
  Calls that leave the controller: into the toolkit, the ROM project and its modules, the
  error handler and the event manager. Each is appended to a log when it is made, so
  that what a handler did, and in what order, can be read off.
\<close>

datatype ext_call =
    SetSubtitle string
  | SetTitle string bool
  | SetDialogLabel string
  | RunLoadingDialog
  | ShowAssistant
  | DisplayError py_error string
  | ShowMessage string
  | ChooseFolder string
  | CaptureError py_error
  | SetErrorText py_error
  | ShowReportButton bool
  | RunLoadView module_id "class_id option" "int option"
  | Unload ctrl
  | ShowAll widget
  | TriggerViewSwitch module_id view_obj "string list"
  | CollapseAll
  | ExpandToPath path
  | SelectPath path
  | ScrollToCell path
  | RomSave string
  | InitSpriteLoader
  | GetRomModule
  | LoadRomData
  | InitPatchProperties
  | GetStaticData
  | LoadTreeItems nat
  | GetRootNode
  | HandleProjectChange
  | FinalizeTree
  | TriggerProjectOpen
  | GetMonsterSprite int
  | GetGroundSprite int
  | GetAttackSprite int
  | MergeWan
  | ExportSheets string
  | ImportSheets string
  | SplitWan
  | SaveMonsterSprite int
  | SaveGroundSprite int
  | SaveAttackSprite int
  | ImportASprite
  | ExportASprite
  | MarkAsModified
  | ReloadView

record rom_project =
  filename :: string
  has_modifications :: bool

text \<open>
  The controller's state. \<open>rom\<close> is \<open>RomProject.get_current()\<close>. \<open>main_item_list\<close> is
  \<open>None\<close> while the attribute is, and otherwise holds the sensitivity of the tree view.
  \<open>loaded_view_child\<close> is the child of the editor stack named \<open>es__loaded_view\<close>,
  \<open>visible_child\<close> the child the stack shows, \<open>destroyed\<close> the widgets on which
  \<open>destroy()\<close> was called. \<open>settings_recent_files\<close> is the list held by the settings store.
  \<open>_current_view_controller_class\<close> is first assigned by \<open>load_view\<close>; the callbacks that read
  it run only after a \<open>load_view\<close>, and the model starts there. The code runs on the
  toolkit's main loop, one handler at a time, and the model is of that single thread.
\<close>

record main_controller =
  recent_files :: "string list"
  settings_recent_files :: "string list"
  search_text :: "string option"
  item_rows :: "node list"
  col_visible :: "path \<Rightarrow> bool"
  main_item_list :: "bool option"
  main_item_filter :: bool
  current_view_module :: "module_id option"
  current_view_controller_class :: "class_id option"
  current_view_item_id :: "int option"
  current_view :: "view_obj option"
  current_breadcrumbs :: "string list"
  loaded_view_child :: "widget option"
  visible_child :: stack_child
  destroyed :: "widget set"
  after_save_action :: "nat option"
  loading_dialog :: "string option"
  view_load_sentry_event_id :: "string option"
  assistant_shown :: bool
  rom :: "rom_project option"
  log :: "ext_call list"

text \<open>Running a second step unless the first one raised.\<close>

definition then_do :: "py_error option \<times> 's \<Rightarrow> ('s \<Rightarrow> py_error option \<times> 's) \<Rightarrow> py_error option \<times> 's" where
  "then_do r f = (case r of (Some e, s) \<Rightarrow> (Some e, s) | (None, s) \<Rightarrow> f s)"

definition call :: "ext_call \<Rightarrow> main_controller \<Rightarrow> main_controller" where
  "call c s = s\<lparr>log := log s @ [c]\<rparr>"

text \<open>\<open>os.path.basename\<close> on a POSIX path: what follows the last slash.\<close>

definition basename :: "string \<Rightarrow> string" where
  "basename fn = rev (takeWhile (\<lambda>c. c \<noteq> CHR ''/'') (rev fn))"

subsection \<open>Saving and the list of recent files\<close>

text \<open>
  \<open>_save\<close>. \<open>rom.save(self)\<close> hands the work to the project, which later calls
  \<open>on_file_saved\<close> or \<open>on_file_saved_error\<close>; here it is the logged call \<open>RomSave\<close>.
\<close>

definition save :: "bool \<Rightarrow> nat option \<Rightarrow> main_controller \<Rightarrow> main_controller" where
  "save force action s =
     (case rom s of
        None \<Rightarrow> s
      | Some r \<Rightarrow>
          if has_modifications r \<or> force then
            (let s1 = s\<lparr>after_save_action := action, loading_dialog := Some ''file_opening_dialog''\<rparr>;
                 rom_name = basename (filename r);
                 s2 = call (SetDialogLabel (''Saving ROM '' @ [CHR 0x22] @ rom_name @ [CHR 0x22] @ ''...'')) s1;
                 s3 = call (RomSave (filename r)) s2
             in call RunLoadingDialog s3)
          else s)"

text \<open>The loop of \<open>_update_recent_files\<close>, with \<open>new_recent_files\<close> as accumulator.\<close>

fun recent_files_loop :: "string \<Rightarrow> string list \<Rightarrow> string list \<Rightarrow> string list" where
  "recent_files_loop fn [] new_recent_files = new_recent_files"
| "recent_files_loop fn (rf # rfs) new_recent_files =
     recent_files_loop fn rfs
       (if rf \<noteq> fn \<and> rf \<notin> set new_recent_files then new_recent_files @ [rf]
        else new_recent_files)"

definition update_recent_files :: "string \<Rightarrow> main_controller \<Rightarrow> main_controller" where
  "update_recent_files fn s =
     (let new_recent_files = fn # recent_files_loop fn (recent_files s) []
      in s\<lparr>recent_files := new_recent_files, settings_recent_files := new_recent_files\<rparr>)"

text \<open>
  The state \<open>__init__\<close> leaves, for the recent files \<open>rfs\<close> read from the settings:
  the item views are connected, nothing is loaded. The stack shows the page the interface
  description makes visible first; \<open>start\<close> is its name.
\<close>

definition init_controller :: "string list \<Rightarrow> string \<Rightarrow> main_controller" where
  "init_controller rfs start =
     \<lparr> recent_files = rfs, settings_recent_files = rfs, search_text = None,
       item_rows = [], col_visible = (\<lambda>p. True),
       main_item_list = Some True, main_item_filter = True,
       current_view_module = None, current_view_controller_class = None,
       current_view_item_id = None, current_view = None, current_breadcrumbs = [],
       loaded_view_child = None, visible_child = Page start, destroyed = {},
       after_save_action = None, loading_dialog = None,
       view_load_sentry_event_id = None, assistant_shown = True,
       rom = None, log = [] \<rparr>"

text \<open>How often the project's \<open>save\<close> was invoked.\<close>

fun is_rom_save :: "ext_call \<Rightarrow> bool" where
  "is_rom_save (RomSave fn) = True"
| "is_rom_save c = False"

definition rom_save_calls :: "main_controller \<Rightarrow> nat" where
  "rom_save_calls s = length (filter is_rom_save (log s))"

subsection \<open>Calls that may raise\<close>

text \<open>
  A run of calls into a collaborator, in order, each of which may raise: \<open>raises c\<close> is the
  exception the call \<open>c\<close> raises, \<open>None\<close> when it returns. The run stops at the first call
  that raises; the log holds the calls made, that one included.
\<close>

fun run_calls ::
  "(ext_call \<Rightarrow> py_error option) \<Rightarrow> ext_call list \<Rightarrow> ext_call list
     \<Rightarrow> py_error option \<times> ext_call list" where
  "run_calls raises [] lg = (None, lg)"
| "run_calls raises (c # cs) lg =
     (case raises c of
        Some e \<Rightarrow> (Some e, lg @ [c])
      | None \<Rightarrow> run_calls raises cs (lg @ [c]))"

definition run_calls_in ::
  "(ext_call \<Rightarrow> py_error option) \<Rightarrow> ext_call list \<Rightarrow> main_controller
     \<Rightarrow> py_error option \<times> main_controller" where
  "run_calls_in raises cs s = (case run_calls raises cs (log s) of (r, lg) \<Rightarrow> (r, s\<lparr>log := lg\<rparr>))"

text \<open>An oracle in which exactly the call \<open>c\<close> raises, with the exception \<open>e\<close>.\<close>

definition raising :: "ext_call \<Rightarrow> py_error \<Rightarrow> ext_call \<Rightarrow> py_error option" where
  "raising c e c' = (if c' = c then Some e else None)"

text \<open>
  The first exception a run of calls meets, and the calls made until then; in these terms
  the properties below say what a handler did.
\<close>

definition first_error :: "(ext_call \<Rightarrow> py_error option) \<Rightarrow> ext_call list \<Rightarrow> py_error option" where
  "first_error raises cs =
     (case dropWhile (\<lambda>c. raises c = None) cs of [] \<Rightarrow> None | c # _ \<Rightarrow> raises c)"

definition calls_made :: "(ext_call \<Rightarrow> py_error option) \<Rightarrow> ext_call list \<Rightarrow> ext_call list" where
  "calls_made raises cs =
     takeWhile (\<lambda>c. raises c = None) cs @ take 1 (dropWhile (\<lambda>c. raises c = None) cs)"

subsection \<open>Switching views\<close>

definition lock_trees :: "main_controller \<Rightarrow> py_error option \<times> main_controller" where
  "lock_trees s =
     (case main_item_list s of
        None \<Rightarrow> (Some AssertionError, s)
      | Some b \<Rightarrow> (None, s\<lparr>main_item_list := Some False\<rparr>))"

definition unlock_trees :: "main_controller \<Rightarrow> py_error option \<times> main_controller" where
  "unlock_trees s =
     (case main_item_list s of
        None \<Rightarrow> (Some AssertionError, s)
      | Some b \<Rightarrow> (None, s\<lparr>main_item_list := Some True\<rparr>))"

text \<open>
  The rows met on the way from a top-level row down to the row at a path: \<open>None\<close> when the
  path leads to no row. The last of them is \<open>model[treeiter]\<close>, the others are its ancestors.
\<close>

fun rows_on_path :: "node list \<Rightarrow> path \<Rightarrow> row list option" where
  "rows_on_path ns [] = Some []"
| "rows_on_path ns (i # p) =
     (if i < length ns then
        (case rows_on_path (kids (ns ! i)) p of
           None \<Rightarrow> None
         | Some rs \<Rightarrow> Some (row_of (ns ! i) # rs))
      else None)"

text \<open>
  \<open>_init_window_before_view_load\<close>, given the selected row and its ancestors, outermost
  first. The loop walks from the row to the root, so \<open>bc_array\<close> starts with the row's own
  title, while the subtitle reads from the root down. Exceptions inside are caught and
  logged only. \<open>SetSubtitle\<close> and \<open>SetTitle\<close> stand for the calls \<open>hb.set_subtitle(bc)\<close> and
  \<open>self._set_title(name, modified)\<close>.
\<close>

definition init_window_before_view_load :: "row list \<Rightarrow> main_controller \<Rightarrow> main_controller" where
  "init_window_before_view_load rs s =
     (let bc = drop 3 (concat (map (\<lambda>r. '' > '' @ col_title r) rs));
          bc_array = map col_title (rev rs);
          s1 = call (SetSubtitle bc) (s\<lparr>current_breadcrumbs := bc_array\<rparr>)
      in case rom s1 of
           None \<Rightarrow> s1
         | Some current_project \<Rightarrow>
             if has_modifications current_project
             then call (SetTitle (basename (filename current_project)) True) s1
             else s1)"

text \<open>
  \<open>load_view\<close>. \<open>model\<close> holds the rows of the tree model passed in, \<open>treeiter\<close> is the path
  of the selected row. A \<open>Gtk.TreeIter\<close> always denotes a row; a path that does not is
  turned away with \<open>IndexError\<close>. The task handed to \<open>AsyncTaskDelegator.run_task\<close> is the
  logged call \<open>RunLoadView\<close>; its result arrives later, through \<open>on_view_loaded\<close> or
  \<open>on_view_loaded_error\<close>.
\<close>

definition load_view ::
  "node list \<Rightarrow> path \<Rightarrow> bool \<Rightarrow> main_controller \<Rightarrow> py_error option \<times> main_controller" where
  "load_view model treeiter scroll_into_view s =
     (case rows_on_path model treeiter of
        None \<Rightarrow> (Some IndexError, s)
      | Some rs \<Rightarrow>
          if rs = [] then (Some IndexError, s)
          else
            then_do (lock_trees s) (\<lambda>s1.
              let selected_node = last rs;
                  s2 = init_window_before_view_load rs s1;
                  s3 = s2\<lparr>visible_child := Page ''es_loading''\<rparr>;
                  s4 = s3\<lparr>current_view_module := col_module selected_node,
                          current_view_controller_class := col_class selected_node,
                          current_view_item_id := col_item_id selected_node\<rparr>
              in case current_view_module s4 of
                   None \<Rightarrow> (Some AssertionError, s4)
                 | Some m \<Rightarrow>
                     let s5 = call (RunLoadView m (current_view_controller_class s4)
                                      (current_view_item_id s4)) s4;
                         s6 = call (ExpandToPath treeiter) s5;
                         s7 = call (SelectPath treeiter) s6
                     in (None, if scroll_into_view then call (ScrollToCell treeiter) s7 else s7)))"

text \<open>
  \<open>on_view_loaded_error\<close>. \<open>sentry_id\<close> is what \<open>capture_error\<close> returns; the report button
  is shown when it is neither \<open>None\<close> nor empty.
\<close>

definition on_view_loaded_error ::
  "string option \<Rightarrow> py_error \<Rightarrow> main_controller \<Rightarrow> py_error option \<times> main_controller" where
  "on_view_loaded_error sentry_id ex s =
     (let s1 = call (SetErrorText ex) s;
          s2 = (call (CaptureError ex) s1)\<lparr>view_load_sentry_event_id := sentry_id\<rparr>;
          s3 = s2\<lparr>visible_child := Page ''es_error''\<rparr>;
          s4 = call (ShowReportButton (sentry_id \<noteq> None \<and> sentry_id \<noteq> Some [])) s3
      in unlock_trees s4)"

fun get_view :: "view_obj \<Rightarrow> py_error + widget" where
  "get_view (WidgetView c w) = Inr w"
| "get_view (ControllerView c k r) = r"

text \<open>The two steps both branches of \<open>on_view_loaded\<close> take with what is currently shown.\<close>

definition destroy_old_view :: "widget option \<Rightarrow> main_controller \<Rightarrow> main_controller" where
  "destroy_old_view old_view s =
     (case old_view of
        None \<Rightarrow> s
      | Some w \<Rightarrow> s\<lparr>loaded_view_child := None, destroyed := insert w (destroyed s)\<rparr>)"

definition unload_current_view :: "main_controller \<Rightarrow> main_controller" where
  "unload_current_view s =
     (case current_view s of
        Some (ControllerView c k r) \<Rightarrow> call (Unload k) s
      | _ \<Rightarrow> s)"

text \<open>
  \<open>on_view_loaded\<close>. The view is obtained first; only then is the result compared with the
  current selection. The handler around \<open>get_view()\<close> is \<open>except Exception\<close>: an
  exception that is not an \<open>Exception\<close> leaves \<open>on_view_loaded\<close> at once, with the
  controller as it was.
\<close>

definition on_view_loaded ::
  "string option \<Rightarrow> module_id \<Rightarrow> view_obj \<Rightarrow> int \<Rightarrow> main_controller
     \<Rightarrow> py_error option \<times> main_controller" where
  "on_view_loaded sentry_id module in_view item_id s =
     (let old_view = loaded_view_child s in
      case get_view in_view of
        Inl err \<Rightarrow>
          if is_exception err then
            then_do (on_view_loaded_error sentry_id err s) (\<lambda>s1.
              let s2 = unload_current_view (destroy_old_view old_view s1)
              in (None, case in_view of
                          ControllerView c k r \<Rightarrow> call (Unload k) s2
                        | WidgetView c w \<Rightarrow> s2))
          else (Some err, s)
      | Inr view \<Rightarrow>
          if current_view_module s \<noteq> Some module
             \<or> current_view_controller_class s \<noteq> Some (view_class in_view)
             \<or> current_view_item_id s \<noteq> Some item_id
          then (None, s\<lparr>destroyed := insert view (destroyed s)\<rparr>)
          else
            let s1 = unload_current_view (destroy_old_view old_view s);
                s2 = s1\<lparr>current_view := Some in_view\<rparr>;
                s3 = call (ShowAll view) (s2\<lparr>loaded_view_child := Some view\<rparr>);
                s4 = s3\<lparr>visible_child := LoadedView view\<rparr>
            in then_do (unlock_trees s4) (\<lambda>s5.
                 (None, call (TriggerViewSwitch module in_view (current_breadcrumbs s5)) s5)))"

subsection \<open>Opening and saving: the completion callbacks\<close>

definition hide_loading_dialog :: "main_controller \<Rightarrow> main_controller" where
  "hide_loading_dialog s = s\<lparr>loading_dialog := None\<rparr>"

definition on_file_opened_error :: "py_error \<Rightarrow> main_controller \<Rightarrow> main_controller" where
  "on_file_opened_error exception s =
     call (DisplayError exception ''Error opening the ROM'') (hide_loading_dialog s)"

definition on_file_saved_error :: "py_error \<Rightarrow> main_controller \<Rightarrow> main_controller" where
  "on_file_saved_error exception s =
     call (DisplayError exception ''Error saving the ROM'') (hide_loading_dialog s)"

text \<open>
  The calls inside the \<open>try\<close> of \<open>on_file_opened\<close>, up to the assertion: \<open>modules\<close> are the
  project's modules in their sort order, \<open>LoadTreeItems 0\<close> is the ROM module's.
\<close>

definition open_calls :: "nat list \<Rightarrow> ext_call list" where
  "open_calls modules =
     [GetRomModule, LoadRomData, InitPatchProperties, GetStaticData, LoadTreeItems 0,
      GetRootNode, HandleProjectChange]
     @ map LoadTreeItems modules @ [FinalizeTree, TriggerProjectOpen]"

text \<open>
  \<open>on_file_opened\<close>. \<open>loaded\<close> is the tree the modules put into the item store and
  \<open>root_node\<close> the path of the ROM module's root row in it; the rows are in the store once
  all calls returned (what a failed load leaves in the store is not modelled, the store
  is then as \<open>_init_window_after_rom_load\<close> cleared it). The sensitivity of the buttons is
  not part of the state.
\<close>

definition on_file_opened ::
  "(ext_call \<Rightarrow> py_error option) \<Rightarrow> nat list \<Rightarrow> node list \<Rightarrow> path \<Rightarrow> main_controller
     \<Rightarrow> py_error option \<times> main_controller" where
  "on_file_opened raises modules loaded root_node s =
     (case rom s of
        None \<Rightarrow> (Some AssertionError, s)
      | Some project \<Rightarrow>
          then_do (run_calls_in raises [InitSpriteLoader] s) (\<lambda>s1.
            let s2 = call (SetTitle (basename (filename project)) False) (s1\<lparr>item_rows := []\<rparr>);
                tried =
                  then_do (run_calls_in raises (open_calls modules) s2) (\<lambda>s3.
                    case main_item_list s3 of
                      None \<Rightarrow> (Some AssertionError, s3)
                    | Some b \<Rightarrow> run_calls_in raises [SelectPath root_node] (s3\<lparr>item_rows := loaded\<rparr>))
            in case tried of
                 (Some ex, s4) \<Rightarrow> (None, on_file_opened_error ex s4)
               | (None, s4) \<Rightarrow>
                   then_do (load_view (item_rows s4) root_node True s4) (\<lambda>s5.
                     let s6 = hide_loading_dialog s5
                     in (None, if \<not> assistant_shown s6 then call ShowAssistant s6 else s6))))"

subsection \<open>The sprite import and export handlers (\<open>monster_sprite.py\<close>)\<close>

text \<open>
  The handlers of the monster sprite view touch no field of their controller; they are
  given by the calls they make. \<open>accepted\<close> is whether the file chooser returned
  \<open>ACCEPT\<close>, \<open>fn\<close> the directory chosen.
\<close>

definition import_calls :: "int \<Rightarrow> string \<Rightarrow> ext_call list" where
  "import_calls item_id fn =
     [ImportSheets fn, SplitWan, ShowMessage ''The spritesheet was successfully imported.'',
      SaveMonsterSprite item_id, SaveGroundSprite item_id, SaveAttackSprite item_id,
      MarkAsModified, ReloadView]"

definition export_calls :: "int \<Rightarrow> string \<Rightarrow> ext_call list" where
  "export_calls item_id fn =
     [GetMonsterSprite item_id, GetGroundSprite item_id, GetAttackSprite item_id, MergeWan,
      ExportSheets fn, ShowMessage ''The spritesheet was successfully exported.'']"

definition on_import_clicked ::
  "int \<Rightarrow> (ext_call \<Rightarrow> py_error option) \<Rightarrow> bool \<Rightarrow> string \<Rightarrow> ext_call list
     \<Rightarrow> py_error option \<times> ext_call list" where
  "on_import_clicked item_id raises accepted fn lg =
     (case run_calls raises
             [ShowMessage ''To import select the directory of the spritesheets. If it is still zipped, unzip it first.'',
              ChooseFolder ''Import spritesheet...''] lg of
        (Some e, lg1) \<Rightarrow> (Some e, lg1)
      | (None, lg1) \<Rightarrow>
          if accepted then
            (case run_calls raises (import_calls item_id fn) lg1 of
               (Some e, lg2) \<Rightarrow> (None, lg2 @ [DisplayError e ''Error importing the spritesheet.''])
             | (None, lg2) \<Rightarrow> (None, lg2))
          else (None, lg1))"

definition on_export_clicked ::
  "int \<Rightarrow> (ext_call \<Rightarrow> py_error option) \<Rightarrow> bool \<Rightarrow> string \<Rightarrow> ext_call list
     \<Rightarrow> py_error option \<times> ext_call list" where
  "on_export_clicked item_id raises accepted fn lg =
     (case run_calls raises [ChooseFolder ''Export spritesheet...''] lg of
        (Some e, lg1) \<Rightarrow> (Some e, lg1)
      | (None, lg1) \<Rightarrow>
          if accepted then
            (case run_calls raises (export_calls item_id fn) lg1 of
               (Some e, lg2) \<Rightarrow> (None, lg2 @ [DisplayError e ''Error exporting the spritesheet.''])
             | (None, lg2) \<Rightarrow> (None, lg2))
          else (None, lg1))"

definition on_export_ground_clicked ::
  "int \<Rightarrow> (ext_call \<Rightarrow> py_error option) \<Rightarrow> ext_call list \<Rightarrow> py_error option \<times> ext_call list" where
  "on_export_ground_clicked item_id raises lg =
     run_calls raises [GetGroundSprite item_id, ExportASprite] lg"

definition on_import_ground_clicked ::
  "int \<Rightarrow> (ext_call \<Rightarrow> py_error option) \<Rightarrow> ext_call list \<Rightarrow> py_error option \<times> ext_call list" where
  "on_import_ground_clicked item_id raises lg =
     run_calls raises [ImportASprite, SaveGroundSprite item_id, MarkAsModified, ReloadView] lg"

subsection \<open>Filtering the item tree\<close>

text \<open>
  \<open>Gtk.TreeModel.foreach\<close>, after the toolkit's documentation: \<open>func\<close> is called on each
  row, depth first, a row before its children, and the walk stops as soon as \<open>func\<close>
  returns true. A row is handed over as its path and the row itself (which stands for
  the \<open>Gtk.TreeIter\<close>, from which the children are reached). The boolean returned is
  whether the walk was stopped.
\<close>

fun foreach_node :: "(path \<Rightarrow> node \<Rightarrow> 's \<Rightarrow> bool \<times> 's) \<Rightarrow> path \<Rightarrow> node \<Rightarrow> 's \<Rightarrow> bool \<times> 's"
  and foreach_rows :: "(path \<Rightarrow> node \<Rightarrow> 's \<Rightarrow> bool \<times> 's) \<Rightarrow> path \<Rightarrow> nat \<Rightarrow> node list \<Rightarrow> 's \<Rightarrow> bool \<times> 's"
  where
  "foreach_node func p (Node r cs) s =
     (let (stop, s1) = func p (Node r cs) s
      in if stop then (True, s1) else foreach_rows func p 0 cs s1)"
| "foreach_rows func p i [] s = (False, s)"
| "foreach_rows func p i (c # cs) s =
     (let (stop, s1) = foreach_node func (p @ [i]) c s
      in if stop then (True, s1) else foreach_rows func p (Suc i) cs s1)"

definition foreach :: "(path \<Rightarrow> node \<Rightarrow> 's \<Rightarrow> bool \<times> 's) \<Rightarrow> node list \<Rightarrow> 's \<Rightarrow> 's" where
  "foreach func rows s = snd (foreach_rows func [] 0 rows s)"

text \<open>
  The rows of a \<open>Gtk.TreeModelFilter\<close> over the store with \<open>COL_VISIBLE\<close> as its visible
  column: a row is in the filter when its flag is set and its parent is in the filter;
  the rows that remain are numbered anew.
\<close>

fun filter_node :: "(path \<Rightarrow> bool) \<Rightarrow> path \<Rightarrow> node \<Rightarrow> node list"
  and filter_rows :: "(path \<Rightarrow> bool) \<Rightarrow> path \<Rightarrow> nat \<Rightarrow> node list \<Rightarrow> node list"
  where
  "filter_node vis p (Node r cs) = (if vis p then [Node r (filter_rows vis p 0 cs)] else [])"
| "filter_rows vis p i [] = []"
| "filter_rows vis p i (c # cs) = filter_node vis (p @ [i]) c @ filter_rows vis p (Suc i) cs"

definition filter__reset_row :: "bool \<Rightarrow> path \<Rightarrow> node \<Rightarrow> main_controller \<Rightarrow> bool \<times> main_controller" where
  "filter__reset_row make_visible path iter s =
     (False, s\<lparr>col_visible := (col_visible s)(path := make_visible)\<rparr>)"

text \<open>
  \<open>_filter__make_path_visible\<close>: the loop runs while \<open>iter\<close> is a row; the parent of a
  top-level row is \<open>None\<close>, the empty path here.
\<close>

function make_path_visible :: "path \<Rightarrow> main_controller \<Rightarrow> main_controller" where
  "make_path_visible iter s =
     (if iter = [] then s
      else make_path_visible (butlast iter) (s\<lparr>col_visible := (col_visible s)(iter := True)\<rparr>))"
  by pat_completeness auto
termination
  by (relation "measure (\<lambda>(iter, s). length iter)") auto

text \<open>\<open>_filter__make_subtree_visible\<close>, with its loop over the children of \<open>iter\<close>.\<close>

fun make_subtree_visible :: "path \<Rightarrow> node \<Rightarrow> main_controller \<Rightarrow> main_controller"
  and make_subtree_visible_loop :: "path \<Rightarrow> nat \<Rightarrow> node list \<Rightarrow> main_controller \<Rightarrow> main_controller"
  where
  "make_subtree_visible iter (Node r cs) s = make_subtree_visible_loop iter 0 cs s"
| "make_subtree_visible_loop iter i [] s = s"
| "make_subtree_visible_loop iter i (c # cs) s =
     (let subtree = iter @ [i] in
      if col_visible s subtree then make_subtree_visible_loop iter (Suc i) cs s
      else make_subtree_visible_loop iter (Suc i) cs
             (make_subtree_visible subtree c (s\<lparr>col_visible := (col_visible s)(subtree := True)\<rparr>)))"

text \<open>
  Whether a row matches the search: \<open>search_query in text\<close> on the lower-cased strings.
  \<open>lower\<close> is Python's \<open>str.lower\<close>.
\<close>

definition text_matches :: "(string \<Rightarrow> string) \<Rightarrow> string \<Rightarrow> node \<Rightarrow> bool" where
  "text_matches lower qry iter \<longleftrightarrow> sublist (lower qry) (lower (col_label (row_of iter)))"

definition filter__show_matches ::
  "(string \<Rightarrow> string) \<Rightarrow> path \<Rightarrow> node \<Rightarrow> main_controller \<Rightarrow> bool \<times> main_controller" where
  "filter__show_matches lower path iter s =
     (case search_text s of
        None \<Rightarrow> (True, s)
      | Some qry \<Rightarrow>
          if text_matches lower qry iter
          then (False, make_subtree_visible path iter (make_path_visible path s))
          else (False, s))"

definition filter__expand_all_visible ::
  "(string \<Rightarrow> string) \<Rightarrow> path \<Rightarrow> node \<Rightarrow> main_controller \<Rightarrow> bool \<times> main_controller" where
  "filter__expand_all_visible lower path iter s =
     (case search_text s of
        None \<Rightarrow> (True, s)
      | Some qry \<Rightarrow>
          if text_matches lower qry iter then (False, call (ExpandToPath path) s)
          else (False, s))"

text \<open>\<open>_filter__refresh_results\<close>; \<open>None == ""\<close> is false, so an unset search text takes the second branch.\<close>

definition filter__refresh_results ::
  "(string \<Rightarrow> string) \<Rightarrow> main_controller \<Rightarrow> py_error option \<times> main_controller" where
  "filter__refresh_results lower s =
     (if search_text s = Some [] then (None, foreach (filter__reset_row True) (item_rows s) s)
      else if main_item_list s = None \<or> \<not> main_item_filter s then (Some AssertionError, s)
      else
        let s1 = call CollapseAll s;
            s2 = foreach (filter__reset_row False) (item_rows s1) s1;
            s3 = foreach (filter__show_matches lower) (item_rows s2) s2;
            s4 = foreach (filter__expand_all_visible lower)
                   (filter_rows (col_visible s3) [] 0 (item_rows s3)) s3
        in (None, s4))"

text \<open>
  The rows of the store with their paths, a row before its children; in these terms the
  properties of the filter are stated. An ancestor of a row is a row whose path is a
  proper prefix of the row's path.
\<close>

fun rows_node :: "path \<Rightarrow> node \<Rightarrow> (path \<times> node) list"
  and rows_rows :: "path \<Rightarrow> nat \<Rightarrow> node list \<Rightarrow> (path \<times> node) list"
  where
  "rows_node p (Node r cs) = (p, Node r cs) # rows_rows p 0 cs"
| "rows_rows p i [] = []"
| "rows_rows p i (c # cs) = rows_node (p @ [i]) c @ rows_rows p (Suc i) cs"

definition store_rows :: "node list \<Rightarrow> (path \<times> node) list" where
  "store_rows ns = rows_rows [] 0 ns"

text \<open>
  Two notions for the proofs. A set of rows is closed downwards under a flag map when
  every flagged row of the set has all its descendants in the set flagged.
  \<open>shown lower qry R v\<close> is the flag map after the rows \<open>R\<close> were visited by
  \<open>_filter__show_matches\<close>, starting from the flags \<open>v\<close>: a matching row of \<open>R\<close> flags the
  rows on its path and the rows of \<open>R\<close> below it.
\<close>

definition down_closed :: "path set \<Rightarrow> (path \<Rightarrow> bool) \<Rightarrow> bool" where
  "down_closed S v \<longleftrightarrow> (\<forall>d\<in>S. v d \<longrightarrow> (\<forall>e\<in>S. prefix d e \<longrightarrow> v e))"

definition shown ::
  "(string \<Rightarrow> string) \<Rightarrow> string \<Rightarrow> (path \<times> node) list \<Rightarrow> (path \<Rightarrow> bool) \<Rightarrow> path \<Rightarrow> bool" where
  "shown lower qry R v x \<longleftrightarrow>
     v x \<or> (\<exists>(q, m)\<in>set R. text_matches lower qry m
                \<and> ((x \<noteq> [] \<and> prefix x q) \<or> (prefix q x \<and> x \<in> fst ` set R)))"

text \<open>
  Lower-casing of the letters of ASCII, for the examples; \<open>str.lower\<close> agrees with it on
  ASCII text.
\<close>

definition ascii_lower :: "string \<Rightarrow> string" where
  "ascii_lower =
     map (\<lambda>c. case map_of (zip ''ABCDEFGHIJKLMNOPQRSTUVWXYZ'' ''abcdefghijklmnopqrstuvwxyz'') c of
                None \<Rightarrow> c
              | Some l \<Rightarrow> l)"

section \<open>The dungeon interruption controller (\<open>module/lists/controller/dungeon_interrupt.py\<close>)\<close>

text \<open>
  \<open>u8_checked\<close> and \<open>u16_checked\<close> of \<open>range_typed_integers\<close>: the value as an unsigned
  8-bit or 16-bit integer, or \<open>OverflowError\<close> when it does not fit.
\<close>

definition u8_checked :: "int \<Rightarrow> py_error + 8 word" where
  "u8_checked v = (if 0 \<le> v \<and> v \<le> 255 then Inr (word_of_int v) else Inl OverflowError)"

definition u16_checked :: "int \<Rightarrow> py_error + 16 word" where
  "u16_checked v = (if 0 \<le> v \<and> v \<le> 65535 then Inr (word_of_int v) else Inl OverflowError)"

text \<open>A row of \<open>interrupt_store\<close>, columns 0 to 7.\<close>

record store_row =
  st_floor :: int
  st_type :: int
  st_game_var :: int
  st_param1 :: int
  st_param2 :: int
  st_type_text :: string
  st_var_name :: string
  st_continue_music :: bool

text \<open>
  \<open>InterDEntry\<close>. The enumeration \<open>InterDEntryType\<close> belongs to the ROM library; its values
  are of type \<open>'e\<close>, and the functions that use it take the enumeration's constructor
  \<open>ent_type_of\<close> (\<open>None\<close> where \<open>InterDEntryType(v)\<close> raises \<open>ValueError\<close>) and its
  \<open>explanation\<close> attribute as arguments.
\<close>

record 'e inter_d_entry =
  e_floor :: "8 word"
  ent_type :: 'e
  game_var_id :: "16 word"
  param1 :: "8 word"
  param2 :: "8 word"
  continue_music :: bool

text \<open>
  The controller: \<open>self.inter_d.list_dungeons\<close>, the rows of \<open>interrupt_store\<close>,
  \<open>self.var_names\<close>, column 0 of the active row of the combo box \<open>cb_dungeon\<close> (\<open>None\<close> when
  no row is active; \<open>_init_combos\<close> fills that column with \<open>range(len(list_dungeons))\<close>, so
  it is a natural number), and whether the module was told that the interruptions were
  modified.
\<close>

record 'e dungeon_interrupt =
  list_dungeons :: "'e inter_d_entry list list"
  interrupt_store :: "store_row list"
  var_names :: "string list"
  active_dungeon :: "nat option"
  marked_modified :: bool

definition get_current_dungeon :: "'e dungeon_interrupt \<Rightarrow> nat" where
  "get_current_dungeon s = (case active_dungeon s of Some d \<Rightarrow> d | None \<Rightarrow> 0)"

text \<open>
  Replacing the element at an index of a Python list by a function of the old one
  (\<open>xs[i] = v\<close>, \<open>xs[i].append(e)\<close>), for an index that is not negative.
\<close>

definition py_modify :: "'a list \<Rightarrow> nat \<Rightarrow> ('a \<Rightarrow> 'a) \<Rightarrow> py_error + 'a list" where
  "py_modify xs i f = (if i < length xs then Inr (xs[i := f (xs ! i)]) else Inl IndexError)"

text \<open>The body of the loop of \<open>_build_list\<close> up to the \<open>append\<close>; the conversions run in this order.\<close>

definition convert_row :: "(int \<Rightarrow> 'e option) \<Rightarrow> store_row \<Rightarrow> py_error + 'e inter_d_entry" where
  "convert_row ent_type_of v =
     (case u8_checked (st_floor v) of Inl x \<Rightarrow> Inl x | Inr fl \<Rightarrow>
      case ent_type_of (st_type v) of None \<Rightarrow> Inl ValueError | Some t \<Rightarrow>
      case u16_checked (st_game_var v) of Inl x \<Rightarrow> Inl x | Inr g \<Rightarrow>
      case u8_checked (st_param1 v) of Inl x \<Rightarrow> Inl x | Inr p1 \<Rightarrow>
      case u8_checked (st_param2 v) of Inl x \<Rightarrow> Inl x | Inr p2 \<Rightarrow>
        Inr \<lparr> e_floor = fl, ent_type = t, game_var_id = g, param1 = p1, param2 = p2,
              continue_music = st_continue_music v \<rparr>)"

fun build_list_loop ::
  "(int \<Rightarrow> 'e option) \<Rightarrow> nat \<Rightarrow> store_row list \<Rightarrow> 'e dungeon_interrupt
     \<Rightarrow> py_error option \<times> 'e dungeon_interrupt" where
  "build_list_loop ent_type_of dungeon [] s = (None, s)"
| "build_list_loop ent_type_of dungeon (v # vs) s =
     (case convert_row ent_type_of v of
        Inl x \<Rightarrow> (Some x, s)
      | Inr e \<Rightarrow>
          (case py_modify (list_dungeons s) dungeon (\<lambda>l. l @ [e]) of
             Inl x \<Rightarrow> (Some x, s)
           | Inr lds \<Rightarrow> build_list_loop ent_type_of dungeon vs (s\<lparr>list_dungeons := lds\<rparr>)))"

text \<open>\<open>_build_list\<close>: the exception that leaves it, if any, and the controller as it then is.\<close>

definition build_list ::
  "(int \<Rightarrow> 'e option) \<Rightarrow> 'e dungeon_interrupt \<Rightarrow> py_error option \<times> 'e dungeon_interrupt" where
  "build_list ent_type_of s =
     (let dungeon = get_current_dungeon s in
      case py_modify (list_dungeons s) dungeon (\<lambda>l. []) of
        Inl x \<Rightarrow> (Some x, s)
      | Inr lds \<Rightarrow>
          then_do (build_list_loop ent_type_of dungeon (interrupt_store s) (s\<lparr>list_dungeons := lds\<rparr>))
            (\<lambda>s'. (None, s'\<lparr>marked_modified := True\<rparr>)))"

text \<open>
  The edit handlers, each named after its method: the arguments are those the toolkit
  passes, with a tree path given as the index of the row, the active row of a combo box
  as its two columns, and \<open>widget.get_active()\<close> as a boolean. \<open>store_edit\<close> is the part of a
  handler before \<open>self._build_list()\<close>: the new rows of the store, or the exception raised
  on the way. \<open>py_int\<close> is Python's \<open>int()\<close> on a string, \<open>None\<close> where it raises
  \<open>ValueError\<close>. The handlers are modelled without their decorators.
\<close>

datatype edit =
    on_btn_add_clicked
  | on_btn_remove_clicked "nat list"
  | on_text_floor_edited nat string
  | on_combo_type_changed nat int string
  | on_combo_game_var_changed nat int string
  | on_text_param1_edited nat string
  | on_text_param2_edited nat string
  | on_continue_music_toggled nat bool

definition delete_row :: "nat \<Rightarrow> 'a list \<Rightarrow> py_error + 'a list" where
  "delete_row i xs = (if i < length xs then Inr (take i xs @ drop (Suc i) xs) else Inl IndexError)"

fun delete_rows :: "nat list \<Rightarrow> 'a list \<Rightarrow> py_error + 'a list" where
  "delete_rows [] xs = Inr xs"
| "delete_rows (i # is) xs =
     (case delete_row i xs of Inl x \<Rightarrow> Inl x | Inr ys \<Rightarrow> delete_rows is ys)"

fun store_edit ::
  "(string \<Rightarrow> int option) \<Rightarrow> (int \<Rightarrow> 'e option) \<Rightarrow> ('e \<Rightarrow> string) \<Rightarrow> edit
     \<Rightarrow> 'e dungeon_interrupt \<Rightarrow> py_error + store_row list" where
  "store_edit py_int ent_type_of explanation on_btn_add_clicked s =
     (case ent_type_of 0 of
        None \<Rightarrow> Inl ValueError
      | Some t \<Rightarrow>
          (case var_names s of
             [] \<Rightarrow> Inl IndexError
           | name # _ \<Rightarrow>
               Inr (interrupt_store s @
                 [\<lparr> st_floor = 0, st_type = 0, st_game_var = 0, st_param1 = 0, st_param2 = 0,
                    st_type_text = explanation t, st_var_name = name,
                    st_continue_music = False \<rparr>])))"
| "store_edit py_int ent_type_of explanation (on_btn_remove_clicked active_rows) s =
     delete_rows (rev (sort active_rows)) (interrupt_store s)"
| "store_edit py_int ent_type_of explanation (on_text_floor_edited p text) s =
     (case py_int text of
        None \<Rightarrow> Inl ValueError
      | Some n \<Rightarrow> py_modify (interrupt_store s) p (\<lambda>r. r\<lparr>st_floor := n\<rparr>))"
| "store_edit py_int ent_type_of explanation (on_combo_type_changed p v text) s =
     py_modify (interrupt_store s) p (\<lambda>r. r\<lparr>st_type := v, st_type_text := text\<rparr>)"
| "store_edit py_int ent_type_of explanation (on_combo_game_var_changed p v text) s =
     py_modify (interrupt_store s) p (\<lambda>r. r\<lparr>st_game_var := v, st_var_name := text\<rparr>)"
| "store_edit py_int ent_type_of explanation (on_text_param1_edited p text) s =
     (case py_int text of
        None \<Rightarrow> Inl ValueError
      | Some n \<Rightarrow> py_modify (interrupt_store s) p (\<lambda>r. r\<lparr>st_param1 := n\<rparr>))"
| "store_edit py_int ent_type_of explanation (on_text_param2_edited p text) s =
     (case py_int text of
        None \<Rightarrow> Inl ValueError
      | Some n \<Rightarrow> py_modify (interrupt_store s) p (\<lambda>r. r\<lparr>st_param2 := n\<rparr>))"
| "store_edit py_int ent_type_of explanation (on_continue_music_toggled p active) s =
     py_modify (interrupt_store s) p (\<lambda>r. r\<lparr>st_continue_music := \<not> active\<rparr>)"

text \<open>
  Whether the handler catches the \<open>ValueError\<close> of its store update and returns: the three
  text handlers do (\<open>except ValueError: return\<close>), the others have no handler.
\<close>

fun catches_value_error :: "edit \<Rightarrow> bool" where
  "catches_value_error (on_text_floor_edited p text) = True"
| "catches_value_error (on_text_param1_edited p text) = True"
| "catches_value_error (on_text_param2_edited p text) = True"
| "catches_value_error e = False"

definition handle_edit ::
  "(string \<Rightarrow> int option) \<Rightarrow> (int \<Rightarrow> 'e option) \<Rightarrow> ('e \<Rightarrow> string) \<Rightarrow> edit
     \<Rightarrow> 'e dungeon_interrupt \<Rightarrow> py_error option \<times> 'e dungeon_interrupt" where
  "handle_edit py_int ent_type_of explanation ed s =
     (case store_edit py_int ent_type_of explanation ed s of
        Inl x \<Rightarrow> (if x = ValueError \<and> catches_value_error ed then (None, s) else (Some x, s))
      | Inr rows \<Rightarrow> build_list ent_type_of (s\<lparr>interrupt_store := rows\<rparr>))"

text \<open>
  An enumeration of six entry types, numbered from 0, as the help text of the view lists
  them; used where a concrete \<open>InterDEntryType\<close> is needed.
\<close>

definition six_types :: "int \<Rightarrow> nat option" where
  "six_types v = (if 0 \<le> v \<and> v < 6 then Some (nat v) else None)"

definition type_name :: "nat \<Rightarrow> string" where
  "type_name t = (if t = 0 then ''Always'' else ''Conditional'')"

text \<open>
  A controller that shows a view: widget 100, of class 10, for item 5 of module 1, which
  is also the current selection.
\<close>

definition showing_view :: main_controller where
  "showing_view =
     (init_controller [] ''intro'')
       \<lparr> current_view_module := Some 1, current_view_controller_class := Some 10,
         current_view_item_id := Some 5, current_view := Some (WidgetView 10 100),
         loaded_view_child := Some 100, visible_child := LoadedView 100 \<rparr>"

text \<open>
  A small item tree and a controller that holds it, with a search text typed in.
\<close>

definition item_row :: "string \<Rightarrow> row" where
  "item_row name =
     \<lparr> col_label = name, col_module = Some 1, col_class = Some 10, col_item_id = Some 0,
       col_title = name \<rparr>"

definition example_tree :: "node list" where
  "example_tree =
     [Node (item_row ''Dungeons'')
        [Node (item_row ''Beach Cave'') [], Node (item_row ''Drenched Bluff'') []],
      Node (item_row ''Sprites'') [Node (item_row ''Pikachu'') []]]"

definition searching :: "string \<Rightarrow> main_controller" where
  "searching qry = (init_controller [] ''intro'')\<lparr>item_rows := example_tree, search_text := Some qry\<rparr>"

section \<open>Properties of the sprite preview\<close>

lemma get_sprite_anim_step:
  assumes "anim_index_ok s"
  shows "\<exists>s'. get_sprite_anim s = Inr (snd (rendered_frame_info s ! nat (anim_counter s)), s')
           \<and> anim_index_ok s'
           \<and> rendered_frame_info s' = rendered_frame_info s
           \<and> anim_counter s' =
               (if frame_counter s + 1 > fst (rendered_frame_info s ! nat (anim_counter s))
                then (anim_counter s + 1) mod int (length (rendered_frame_info s))
                else anim_counter s)"
proof -
  let ?n = "int (length (rendered_frame_info s))"
  from assms have idx: "py_index (rendered_frame_info s) (anim_counter s)
      = Inr (rendered_frame_info s ! nat (anim_counter s))"
    by (simp add: py_index_def anim_index_ok_def)
  from assms have bounds: "0 \<le> anim_counter s" "anim_counter s < ?n"
    by (simp_all add: anim_index_ok_def)
  have wrap: "(anim_counter s + 1) mod ?n = (if anim_counter s + 1 \<ge> ?n then 0 else anim_counter s + 1)"
  proof (cases "anim_counter s + 1 \<ge> ?n")
    case True
    with bounds have "anim_counter s + 1 = ?n" by linarith
    with True show ?thesis by simp
  next
    case False
    with bounds show ?thesis by (simp add: mod_pos_pos_trivial)
  qed
  show ?thesis
    using bounds wrap by (auto simp: get_sprite_anim_def idx Let_def anim_index_ok_def)
qed

lemma get_sprite_anims_ok:
  "anim_index_ok s \<Longrightarrow>
     \<exists>rs s'. get_sprite_anims n s = Inr (rs, s') \<and> length rs = n \<and> anim_index_ok s'
       \<and> rendered_frame_info s' = rendered_frame_info s
       \<and> set rs \<subseteq> snd ` set (rendered_frame_info s)"
proof (induction n arbitrary: s)
  case 0
  then show ?case by simp
next
  case (Suc n)
  from get_sprite_anim_step [OF Suc.prems] obtain s1 where
    st: "get_sprite_anim s = Inr (snd (rendered_frame_info s ! nat (anim_counter s)), s1)"
    and ok1: "anim_index_ok s1" and same1: "rendered_frame_info s1 = rendered_frame_info s"
    by blast
  from Suc.IH [OF ok1] obtain rs s2 where
    rest: "get_sprite_anims n s1 = Inr (rs, s2)" "length rs = n" "anim_index_ok s2"
      "rendered_frame_info s2 = rendered_frame_info s1"
      "set rs \<subseteq> snd ` set (rendered_frame_info s1)"
    by blast
  from Suc.prems have "nat (anim_counter s) < length (rendered_frame_info s)"
    unfolding anim_index_ok_def by linarith
  then have "rendered_frame_info s ! nat (anim_counter s) \<in> set (rendered_frame_info s)"
    by (rule nth_mem)
  then have "snd (rendered_frame_info s ! nat (anim_counter s)) \<in> snd ` set (rendered_frame_info s)"
    by (rule imageI)
  with st rest same1 show ?case by simp
qed

text \<open>
  C10. Provided \<open>_rendered_frame_info\<close> is non-empty and \<open>_anim_counter\<close> is a valid
  index of it (as it is after \<open>__init__\<close>, where it is 0), a call of \<open>_get_sprite_anim\<close>
  succeeds, returns the frame tuple stored at that index, leaves the list as it was and
  leaves \<open>_anim_counter\<close> a valid index: it stays where it was unless the incremented frame
  counter exceeds the current frame's duration, in which case it advances by one and
  wraps to 0 past the end. Hence any number of successive calls succeeds, each returning
  a stored frame tuple, and the index is valid after them.
\<close>

theorem get_sprite_anim_index_in_range:
  assumes "rendered_frame_info s \<noteq> []"
    and "0 \<le> anim_counter s"
    and "anim_counter s < int (length (rendered_frame_info s))"
  shows "(\<exists>s'. get_sprite_anim s = Inr (snd (rendered_frame_info s ! nat (anim_counter s)), s')
           \<and> 0 \<le> anim_counter s' \<and> anim_counter s' < int (length (rendered_frame_info s'))
           \<and> rendered_frame_info s' = rendered_frame_info s
           \<and> anim_counter s' =
               (if frame_counter s + 1 > fst (rendered_frame_info s ! nat (anim_counter s))
                then (anim_counter s + 1) mod int (length (rendered_frame_info s))
                else anim_counter s))
       \<and> (\<exists>rs s'. get_sprite_anims n s = Inr (rs, s') \<and> length rs = n
           \<and> 0 \<le> anim_counter s' \<and> anim_counter s' < int (length (rendered_frame_info s'))
           \<and> set rs \<subseteq> snd ` set (rendered_frame_info s))"
proof -
  from assms have ok: "anim_index_ok s" by (simp add: anim_index_ok_def)
  from get_sprite_anim_step [OF ok]
  have one: "\<exists>s'. get_sprite_anim s = Inr (snd (rendered_frame_info s ! nat (anim_counter s)), s')
           \<and> 0 \<le> anim_counter s' \<and> anim_counter s' < int (length (rendered_frame_info s'))
           \<and> rendered_frame_info s' = rendered_frame_info s
           \<and> anim_counter s' =
               (if frame_counter s + 1 > fst (rendered_frame_info s ! nat (anim_counter s))
                then (anim_counter s + 1) mod int (length (rendered_frame_info s))
                else anim_counter s)"
    by (auto simp: anim_index_ok_def)
  from get_sprite_anims_ok [OF ok, of n]
  have many: "\<exists>rs s'. get_sprite_anims n s = Inr (rs, s') \<and> length rs = n
           \<and> 0 \<le> anim_counter s' \<and> anim_counter s' < int (length (rendered_frame_info s'))
           \<and> set rs \<subseteq> snd ` set (rendered_frame_info s)"
    by (auto simp: anim_index_ok_def)
  from one many show ?thesis by (rule conjI)
qed

theorem get_sprite_anim_index_in_range_witness:
  "rendered_frame_info (init_sprite None [(1, ''walk0''), (0, ''walk1'')]) \<noteq> []
   \<and> anim_counter (init_sprite None [(1, ''walk0''), (0, ''walk1'')]) = 0
   \<and> (\<exists>s'. get_sprite_anims 5 (init_sprite None [(1, ''walk0''), (0, ''walk1'')])
            = Inr ([''walk0'', ''walk0'', ''walk1'', ''walk0'', ''walk0''], s')
          \<and> anim_counter s' = 1)"
proof -
  let ?s = "init_sprite None [(1, ''walk0''), (0, ''walk1'')]"
  have h: "rendered_frame_info ?s \<noteq> []" "0 \<le> anim_counter ?s"
    "anim_counter ?s < int (length (rendered_frame_info ?s))"
    by (simp_all add: init_sprite_def)
  from get_sprite_anim_index_in_range [OF h, of 5] obtain rs s' where
    r: "get_sprite_anims 5 ?s = Inr (rs, s')" by blast
  have v: "get_sprite_anims 5 ?s
      = Inr ([''walk0'', ''walk0'', ''walk1'', ''walk0'', ''walk0''],
             ?s\<lparr>frame_counter := 0, anim_counter := 1\<rparr>)"
    by (simp add: eval_nat_numeral get_sprite_anim_def py_index_def init_sprite_def)
  from r v h show ?thesis by (simp add: init_sprite_def)
qed

section \<open>Properties of saving and of the recent files\<close>

lemma recent_files_loop_app:
  "\<exists>ys. recent_files_loop fn rfs new = new @ ys \<and> subseq ys rfs \<and> distinct ys
        \<and> set ys = (set rfs - {fn}) - set new"
proof (induction rfs arbitrary: new)
  case Nil
  then show ?case by simp
next
  case (Cons rf rfs)
  show ?case
  proof (cases "rf \<noteq> fn \<and> rf \<notin> set new")
    case True
    from Cons.IH [of "new @ [rf]"] obtain ys where
      ys: "recent_files_loop fn rfs (new @ [rf]) = (new @ [rf]) @ ys" "subseq ys rfs"
        "distinct ys" "set ys = (set rfs - {fn}) - set (new @ [rf])"
      by blast
    have "recent_files_loop fn (rf # rfs) new = new @ (rf # ys)"
      using True ys(1) by simp
    moreover have "subseq (rf # ys) (rf # rfs)"
      using ys(2) by simp
    moreover have "distinct (rf # ys)"
      using ys(3,4) by simp
    moreover have "set (rf # ys) = (set (rf # rfs) - {fn}) - set new"
      using True ys(4) by auto
    ultimately show ?thesis by blast
  next
    case False
    from Cons.IH [of new] obtain ys where
      ys: "recent_files_loop fn rfs new = new @ ys" "subseq ys rfs"
        "distinct ys" "set ys = (set rfs - {fn}) - set new"
      by blast
    have "recent_files_loop fn (rf # rfs) new = new @ ys"
      using False ys(1) by auto
    moreover have "subseq ys (rf # rfs)"
      using ys(2) by (rule list_emb_Cons)
    moreover have "set ys = (set (rf # rfs) - {fn}) - set new"
      using False ys(4) by auto
    ultimately show ?thesis using ys(3) by blast
  qed
qed

lemma recent_files_loop_distinct:
  "distinct rfs \<Longrightarrow> set rfs \<inter> set new = {} \<Longrightarrow>
     recent_files_loop fn rfs new = new @ filter (\<lambda>rf. rf \<noteq> fn) rfs"
  by (induction rfs arbitrary: new) auto

text \<open>
  C8. After \<open>_update_recent_files(fn)\<close> the stored list starts with \<open>fn\<close>, has no
  duplicates, holds after \<open>fn\<close> exactly the previous entries other than \<open>fn\<close>, in an order
  in which they occurred in the previous list (when the previous list had no duplicates:
  the previous list with \<open>fn\<close> removed), and the same list is the one handed to the
  settings store. Nothing else of the controller changes.
\<close>

theorem update_recent_files_front_distinct:
  "hd (recent_files (update_recent_files fn s)) = fn
   \<and> recent_files (update_recent_files fn s) \<noteq> []
   \<and> distinct (recent_files (update_recent_files fn s))
   \<and> set (tl (recent_files (update_recent_files fn s))) = set (recent_files s) - {fn}
   \<and> subseq (tl (recent_files (update_recent_files fn s))) (recent_files s)
   \<and> (distinct (recent_files s) \<longrightarrow>
        tl (recent_files (update_recent_files fn s)) = filter (\<lambda>rf. rf \<noteq> fn) (recent_files s))
   \<and> settings_recent_files (update_recent_files fn s) = recent_files (update_recent_files fn s)
   \<and> update_recent_files fn s
       = s\<lparr>recent_files := recent_files (update_recent_files fn s),
            settings_recent_files := recent_files (update_recent_files fn s)\<rparr>"
proof -
  from recent_files_loop_app [of fn "recent_files s" "[]"] obtain ys where
    ys: "recent_files_loop fn (recent_files s) [] = ys" "subseq ys (recent_files s)"
      "distinct ys" "set ys = set (recent_files s) - {fn}"
    by auto
  have r: "recent_files (update_recent_files fn s) = fn # ys"
    by (simp add: update_recent_files_def ys(1) Let_def)
  have d: "distinct (recent_files s) \<longrightarrow> ys = filter (\<lambda>rf. rf \<noteq> fn) (recent_files s)"
    using recent_files_loop_distinct [of "recent_files s" "[]" fn] ys(1) by simp
  have st: "settings_recent_files (update_recent_files fn s) = fn # ys"
    by (simp add: update_recent_files_def ys(1) Let_def)
  have u: "update_recent_files fn s = s\<lparr>recent_files := fn # ys, settings_recent_files := fn # ys\<rparr>"
    by (simp add: update_recent_files_def ys(1) Let_def)
  show ?thesis
    unfolding r st using ys(2,3,4) d u by auto
qed

theorem update_recent_files_front_distinct_witness:
  "distinct [''b.nds'', ''a.nds'', ''c.nds'']
   \<and> recent_files (update_recent_files ''a.nds''
        (init_controller [''b.nds'', ''a.nds'', ''c.nds''] ''intro''))
      = [''a.nds'', ''b.nds'', ''c.nds'']"
proof -
  let ?s = "init_controller [''b.nds'', ''a.nds'', ''c.nds''] ''intro''"
  have eq: "recent_files ?s = [''b.nds'', ''a.nds'', ''c.nds'']"
    by (simp add: init_controller_def)
  have dist: "distinct (recent_files ?s)"
    unfolding eq by simp
  from update_recent_files_front_distinct [of "''a.nds''" ?s] dist
  have "hd (recent_files (update_recent_files ''a.nds'' ?s)) = ''a.nds''"
    and "recent_files (update_recent_files ''a.nds'' ?s) \<noteq> []"
    and "tl (recent_files (update_recent_files ''a.nds'' ?s))
          = filter (\<lambda>rf. rf \<noteq> ''a.nds'') (recent_files ?s)"
    by blast+
  then have "recent_files (update_recent_files ''a.nds'' ?s)
      = ''a.nds'' # filter (\<lambda>rf. rf \<noteq> ''a.nds'') (recent_files ?s)"
    by (metis list.collapse)
  then show ?thesis unfolding eq by simp
qed

text \<open>
  C7. \<open>_save\<close> invokes the project's \<open>save\<close> exactly once when a project is open and
  either has modifications or \<open>force\<close> is set, recording the action to run afterwards and
  raising the loading dialog; when no project is open, or the open project is unmodified
  and \<open>force\<close> is false, it invokes no save and returns the controller as it was.
\<close>

theorem save_iff_open_and_changed_or_forced:
  "rom_save_calls (save force action s) =
     rom_save_calls s
       + (if (\<exists>r. rom s = Some r \<and> (has_modifications r \<or> force)) then 1 else 0)
   \<and> ((\<exists>r. rom s = Some r \<and> (has_modifications r \<or> force)) \<longrightarrow>
        after_save_action (save force action s) = action
        \<and> loading_dialog (save force action s) = Some ''file_opening_dialog''
        \<and> (\<exists>l r. rom s = Some r
              \<and> log (save force action s)
                  = log s @ [SetDialogLabel l, RomSave (filename r), RunLoadingDialog]))
   \<and> (\<not> (\<exists>r. rom s = Some r \<and> (has_modifications r \<or> force)) \<longrightarrow>
        save force action s = s)"
  by (cases "rom s") (auto simp: save_def rom_save_calls_def call_def Let_def)

theorem save_iff_open_and_changed_or_forced_witness:
  "rom_save_calls (save False None
      ((init_controller [] ''intro'')
         \<lparr>rom := Some \<lparr>filename = ''/roms/sky.nds'', has_modifications = True\<rparr>\<rparr>)) = 1
   \<and> save False None
      ((init_controller [] ''intro'')
         \<lparr>rom := Some \<lparr>filename = ''/roms/sky.nds'', has_modifications = False\<rparr>\<rparr>)
     = (init_controller [] ''intro'')
         \<lparr>rom := Some \<lparr>filename = ''/roms/sky.nds'', has_modifications = False\<rparr>\<rparr>"
  using save_iff_open_and_changed_or_forced
      [of False None "(init_controller [] ''intro'')
         \<lparr>rom := Some \<lparr>filename = ''/roms/sky.nds'', has_modifications = True\<rparr>\<rparr>"]
    save_iff_open_and_changed_or_forced
      [of False None "(init_controller [] ''intro'')
         \<lparr>rom := Some \<lparr>filename = ''/roms/sky.nds'', has_modifications = False\<rparr>\<rparr>"]
  by (simp add: init_controller_def rom_save_calls_def)

section \<open>Properties of the sprite preview timer\<close>

lemma run_timer_stopped:
  "fst (run_timer evs (False, s)) = False \<and> draws (snd (run_timer evs (False, s))) = draws s"
proof (induction evs arbitrary: s)
  case Nil
  then show ?case by simp
next
  case (Cons e evs)
  show ?case
  proof (cases e)
    case (Fire f)
    then show ?thesis using Cons.IH [of s] by simp
  next
    case StopDrawing
    have "draws (stop_sprite_drawing s) = draws s"
      by (simp add: draws_def stop_sprite_drawing_def)
    then show ?thesis using StopDrawing Cons.IH [of "stop_sprite_drawing s"] by simp
  next
    case Detach
    have "draws (detach_draw_area s) = draws s"
      by (simp add: draws_def detach_draw_area_def split: option.splits)
    then show ?thesis using Detach Cons.IH [of "detach_draw_area s"] by simp
  qed
qed

text \<open>
  C6. \<open>start_sprite_drawing\<close>, on a controller with a drawing area, activates drawing
  and registers \<open>_tick\<close> with the interval \<open>int(1000 / 30) = 33\<close> milliseconds. A \<open>_tick\<close>
  returns true exactly when drawing is active and the drawing area exists and has a
  parent; so it returns false after \<open>stop_sprite_drawing\<close> and after the drawing area was
  detached. Once the timeout source is gone, whatever happens next (further firing times,
  stops, detachments), the source stays gone and the drawing area is not queued for
  redrawing again.
\<close>

theorem tick_fixed_rate_until_stopped:
  "1000 div FPS = 33
   \<and> (\<forall>da. draw_area s = Some da \<longrightarrow>
        fst (start_sprite_drawing s) = None
        \<and> drawing_is_active (snd (start_sprite_drawing s))
        \<and> tick_timeouts (snd (start_sprite_drawing s)) = tick_timeouts s @ [33])
   \<and> (fst (tick has_focus s) \<longleftrightarrow>
        drawing_is_active s \<and> (\<exists>da. draw_area s = Some da \<and> has_parent da))
   \<and> \<not> fst (tick has_focus (stop_sprite_drawing s))
   \<and> \<not> fst (tick has_focus (detach_draw_area s))
   \<and> \<not> fst (run_timer evs (False, s))
   \<and> draws (snd (run_timer evs (False, s))) = draws s"
proof -
  have a: "1000 div FPS = 33" by (simp add: FPS_def)
  have b: "\<forall>da. draw_area s = Some da \<longrightarrow>
        fst (start_sprite_drawing s) = None
        \<and> drawing_is_active (snd (start_sprite_drawing s))
        \<and> tick_timeouts (snd (start_sprite_drawing s)) = tick_timeouts s @ [33]"
    by (simp add: start_sprite_drawing_def FPS_def)
  have c: "fst (tick has_focus s) \<longleftrightarrow>
        drawing_is_active s \<and> (\<exists>da. draw_area s = Some da \<and> has_parent da)"
    by (cases "draw_area s") (simp_all add: tick_def Let_def)
  have d: "\<not> fst (tick has_focus (stop_sprite_drawing s))"
    by (cases "draw_area s") (simp_all add: tick_def stop_sprite_drawing_def Let_def)
  have e: "\<not> fst (tick has_focus (detach_draw_area s))"
    by (cases "draw_area s") (simp_all add: tick_def detach_draw_area_def Let_def)
  from a b c d e run_timer_stopped [of evs s] show ?thesis by simp
qed

theorem tick_fixed_rate_until_stopped_witness:
  "draw_area (init_sprite (Some \<lparr>has_parent = True, da_destroyed = False, queued_draws = 0\<rparr>)
      [(1, ''walk0'')])
     = Some \<lparr>has_parent = True, da_destroyed = False, queued_draws = 0\<rparr>
   \<and> tick_timeouts (snd (start_sprite_drawing
        (init_sprite (Some \<lparr>has_parent = True, da_destroyed = False, queued_draws = 0\<rparr>)
           [(1, ''walk0'')]))) = [33]
   \<and> fst (tick True (snd (start_sprite_drawing
        (init_sprite (Some \<lparr>has_parent = True, da_destroyed = False, queued_draws = 0\<rparr>)
           [(1, ''walk0'')]))))"
proof -
  let ?da = "\<lparr>has_parent = True, da_destroyed = False, queued_draws = 0\<rparr>"
  let ?s = "init_sprite (Some ?da) [(1, ''walk0'')]"
  have h: "draw_area ?s = Some ?da" by (simp add: init_sprite_def)
  from tick_fixed_rate_until_stopped [of ?s True "[]"] h
  have t: "tick_timeouts (snd (start_sprite_drawing ?s)) = tick_timeouts ?s @ [33]"
    by blast
  have r: "drawing_is_active (snd (start_sprite_drawing ?s))
      \<and> (\<exists>da. draw_area (snd (start_sprite_drawing ?s)) = Some da \<and> has_parent da)"
    by (simp add: start_sprite_drawing_def init_sprite_def)
  from tick_fixed_rate_until_stopped [of "snd (start_sprite_drawing ?s)" True "[]"] r
  have f: "fst (tick True (snd (start_sprite_drawing ?s)))" by blast
  from h t f show ?thesis by (simp add: init_sprite_def)
qed

section \<open>Properties of the interruption list rebuild\<close>

lemma convert_row_fields:
  "convert_row et v = Inr e \<Longrightarrow>
     uint (e_floor e) = st_floor v \<and> et (st_type v) = Some (ent_type e)
     \<and> uint (game_var_id e) = st_game_var v \<and> uint (param1 e) = st_param1 v
     \<and> uint (param2 e) = st_param2 v \<and> continue_music e = st_continue_music v"
  by (auto simp: convert_row_def u8_checked_def u16_checked_def uint_word_of_int_eq take_bit_int_eq_self
      split: sum.splits option.splits if_splits)

lemma build_list_loop_frame:
  "length (list_dungeons (snd (build_list_loop et d vs s))) = length (list_dungeons s)
   \<and> (\<forall>i. i \<noteq> d \<longrightarrow> list_dungeons (snd (build_list_loop et d vs s)) ! i = list_dungeons s ! i)
   \<and> interrupt_store (snd (build_list_loop et d vs s)) = interrupt_store s
   \<and> var_names (snd (build_list_loop et d vs s)) = var_names s
   \<and> active_dungeon (snd (build_list_loop et d vs s)) = active_dungeon s
   \<and> marked_modified (snd (build_list_loop et d vs s)) = marked_modified s"
proof (induction vs arbitrary: s)
  case Nil
  then show ?case by simp
next
  case (Cons v vs)
  show ?case
  proof (cases "convert_row et v")
    case (Inl x)
    then show ?thesis by simp
  next
    case (Inr e)
    show ?thesis
    proof (cases "d < length (list_dungeons s)")
      case True
      then have step: "build_list_loop et d (v # vs) s
          = build_list_loop et d vs (s\<lparr>list_dungeons := (list_dungeons s)[d := list_dungeons s ! d @ [e]]\<rparr>)"
        using Inr by (simp add: py_modify_def)
      show ?thesis
        unfolding step using Cons.IH [of "s\<lparr>list_dungeons := (list_dungeons s)[d := list_dungeons s ! d @ [e]]\<rparr>"]
        by simp
    next
      case False
      then show ?thesis using Inr by (simp add: py_modify_def)
    qed
  qed
qed

lemma build_list_loop_converts:
  "d < length (list_dungeons s) \<Longrightarrow> \<forall>v\<in>set vs. \<exists>e. convert_row et v = Inr e \<Longrightarrow>
     build_list_loop et d vs s
       = (None, s\<lparr>list_dungeons :=
            (list_dungeons s)[d := list_dungeons s ! d @ map (\<lambda>v. projr (convert_row et v)) vs]\<rparr>)"
proof (induction vs arbitrary: s)
  case Nil
  then show ?case by simp
next
  case (Cons v vs)
  from Cons.prems(2) obtain e where e: "convert_row et v = Inr e" by auto
  let ?s1 = "s\<lparr>list_dungeons := (list_dungeons s)[d := list_dungeons s ! d @ [e]]\<rparr>"
  have step: "build_list_loop et d (v # vs) s = build_list_loop et d vs ?s1"
    using e Cons.prems(1) by (simp add: py_modify_def)
  have d1: "d < length (list_dungeons ?s1)" using Cons.prems(1) by simp
  have rest: "\<forall>v\<in>set vs. \<exists>e. convert_row et v = Inr e" using Cons.prems(2) by simp
  show ?case
    unfolding step Cons.IH [OF d1 rest] using e Cons.prems(1) by simp
qed

lemma build_list_frame:
  "length (list_dungeons (snd (build_list et s))) = length (list_dungeons s)
   \<and> (\<forall>i. i \<noteq> get_current_dungeon s \<longrightarrow>
         list_dungeons (snd (build_list et s)) ! i = list_dungeons s ! i)
   \<and> interrupt_store (snd (build_list et s)) = interrupt_store s"
proof (cases "get_current_dungeon s < length (list_dungeons s)")
  case True
  let ?d = "get_current_dungeon s"
  let ?s0 = "s\<lparr>list_dungeons := (list_dungeons s)[?d := []]\<rparr>"
  have b: "build_list et s = then_do (build_list_loop et ?d (interrupt_store s) ?s0)
            (\<lambda>s'. (None, s'\<lparr>marked_modified := True\<rparr>))"
    using True by (simp add: build_list_def py_modify_def Let_def)
  obtain r s1 where l: "build_list_loop et ?d (interrupt_store s) ?s0 = (r, s1)"
    by (cases "build_list_loop et ?d (interrupt_store s) ?s0")
  from build_list_loop_frame [of et ?d "interrupt_store s" ?s0] l
  have f: "length (list_dungeons s1) = length (list_dungeons s)"
    "\<forall>i. i \<noteq> ?d \<longrightarrow> list_dungeons s1 ! i = list_dungeons s ! i"
    "interrupt_store s1 = interrupt_store s"
    by simp_all
  show ?thesis
    unfolding b l using f by (cases r) (simp_all add: then_do_def)
next
  case False
  then show ?thesis by (simp add: build_list_def py_modify_def Let_def)
qed

lemma build_list_converts:
  assumes "get_current_dungeon s < length (list_dungeons s)"
    and "\<forall>v\<in>set (interrupt_store s). \<exists>e. convert_row et v = Inr e"
  shows "build_list et s
       = (None, s\<lparr>list_dungeons :=
            (list_dungeons s)[get_current_dungeon s :=
               map (\<lambda>v. projr (convert_row et v)) (interrupt_store s)],
            marked_modified := True\<rparr>)"
proof -
  let ?d = "get_current_dungeon s"
  let ?s0 = "s\<lparr>list_dungeons := (list_dungeons s)[?d := []]\<rparr>"
  have b: "build_list et s = then_do (build_list_loop et ?d (interrupt_store s) ?s0)
            (\<lambda>s'. (None, s'\<lparr>marked_modified := True\<rparr>))"
    using assms(1) by (simp add: build_list_def py_modify_def Let_def)
  have d0: "?d < length (list_dungeons ?s0)" using assms(1) by simp
  show ?thesis
    unfolding b build_list_loop_converts [OF d0 assms(2)]
    using assms(1) by (simp add: then_do_def)
qed

text \<open>
  C9, as the code has it. \<open>_build_list\<close> never changes the number of dungeons nor the
  entry list of any dungeon other than the selected one, and it leaves the store as it
  is. When the selected dungeon exists and every row of the store converts (floor and
  parameters within \<open>u8\<close>, game variable within \<open>u16\<close>, entry type known), it returns
  normally with the selected dungeon's list replaced by the converted rows, in order, and
  the module marked as modified; a converted entry carries the row's columns 0, 1, 2, 3,
  4 and 7. Every edit handler whose store update succeeds ends in \<open>_build_list\<close> on the
  updated store.
\<close>

theorem build_list_replaces_selected_only:
  "length (list_dungeons (snd (build_list et s))) = length (list_dungeons s)
   \<and> (\<forall>i. i \<noteq> get_current_dungeon s \<longrightarrow>
         list_dungeons (snd (build_list et s)) ! i = list_dungeons s ! i)
   \<and> interrupt_store (snd (build_list et s)) = interrupt_store s
   \<and> (get_current_dungeon s < length (list_dungeons s)
        \<and> (\<forall>v\<in>set (interrupt_store s). \<exists>e. convert_row et v = Inr e) \<longrightarrow>
      build_list et s
        = (None, s\<lparr>list_dungeons :=
             (list_dungeons s)[get_current_dungeon s :=
                map (\<lambda>v. projr (convert_row et v)) (interrupt_store s)],
             marked_modified := True\<rparr>))
   \<and> (\<forall>v e. convert_row et v = Inr e \<longrightarrow>
         uint (e_floor e) = st_floor v \<and> et (st_type v) = Some (ent_type e)
         \<and> uint (game_var_id e) = st_game_var v \<and> uint (param1 e) = st_param1 v
         \<and> uint (param2 e) = st_param2 v \<and> continue_music e = st_continue_music v)
   \<and> (\<forall>rows. store_edit py_int et explanation ed s = Inr rows \<longrightarrow>
         handle_edit py_int et explanation ed s = build_list et (s\<lparr>interrupt_store := rows\<rparr>))"
proof -
  have h: "\<forall>rows. store_edit py_int et explanation ed s = Inr rows \<longrightarrow>
         handle_edit py_int et explanation ed s = build_list et (s\<lparr>interrupt_store := rows\<rparr>)"
    by (simp add: handle_edit_def)
  from build_list_frame [of et s] build_list_converts [of s et] convert_row_fields [of et] h
  show ?thesis by blast
qed

theorem build_list_replaces_selected_only_witness:
  "handle_edit (\<lambda>t. Some 3) six_types type_name (on_text_floor_edited 0 ''3'')
     \<lparr> list_dungeons = [[], []],
       interrupt_store =
         [\<lparr> st_floor = 1, st_type = 2, st_game_var = 7, st_param1 = 4, st_param2 = 5,
            st_type_text = ''Conditional'', st_var_name = ''VAR'', st_continue_music = True \<rparr>],
       var_names = [''VAR''], active_dungeon = Some 1, marked_modified = False \<rparr>
   = (None,
      \<lparr> list_dungeons =
          [[], [\<lparr> e_floor = 3, ent_type = 2, game_var_id = 7, param1 = 4, param2 = 5,
                   continue_music = True \<rparr>]],
        interrupt_store =
         [\<lparr> st_floor = 3, st_type = 2, st_game_var = 7, st_param1 = 4, st_param2 = 5,
            st_type_text = ''Conditional'', st_var_name = ''VAR'', st_continue_music = True \<rparr>],
        var_names = [''VAR''], active_dungeon = Some 1, marked_modified = True \<rparr>)"
proof -
  let ?r0 = "\<lparr> st_floor = 1, st_type = 2, st_game_var = 7, st_param1 = 4, st_param2 = 5,
            st_type_text = ''Conditional'', st_var_name = ''VAR'', st_continue_music = True \<rparr>"
  let ?r1 = "\<lparr> st_floor = 3, st_type = 2, st_game_var = 7, st_param1 = 4, st_param2 = 5,
            st_type_text = ''Conditional'', st_var_name = ''VAR'', st_continue_music = True \<rparr>"
  let ?s = "\<lparr> list_dungeons = [[], []] :: nat inter_d_entry list list, interrupt_store = [?r0],
       var_names = [''VAR''], active_dungeon = Some 1, marked_modified = False \<rparr>"
  let ?s1 = "?s\<lparr>interrupt_store := [?r1]\<rparr>"
  let ?e = "\<lparr> e_floor = 3, ent_type = 2 :: nat, game_var_id = 7, param1 = 4, param2 = 5,
                   continue_music = True \<rparr>"
  have ed: "store_edit (\<lambda>t. Some 3) six_types type_name (on_text_floor_edited 0 ''3'') ?s = Inr [?r1]"
    by (simp add: py_modify_def)
  have cv: "convert_row six_types ?r1 = Inr ?e"
    by (simp add: convert_row_def u8_checked_def u16_checked_def six_types_def)
  have pre: "get_current_dungeon ?s1 < length (list_dungeons ?s1)
        \<and> (\<forall>v\<in>set (interrupt_store ?s1). \<exists>e. convert_row six_types v = Inr e)"
    using cv by (simp add: get_current_dungeon_def)
  from build_list_replaces_selected_only
    [of six_types ?s1 "\<lambda>t. Some 3" type_name "on_text_floor_edited 0 ''3''"] pre
  have b: "build_list six_types ?s1
        = (None, ?s1\<lparr>list_dungeons :=
             (list_dungeons ?s1)[get_current_dungeon ?s1 :=
                map (\<lambda>v. projr (convert_row six_types v)) (interrupt_store ?s1)],
             marked_modified := True\<rparr>)"
    by blast
  from build_list_replaces_selected_only
    [of six_types ?s "\<lambda>t. Some 3" type_name "on_text_floor_edited 0 ''3''"] ed
  have "handle_edit (\<lambda>t. Some 3) six_types type_name (on_text_floor_edited 0 ''3'') ?s
      = build_list six_types ?s1"
    by blast
  then show ?thesis
    unfolding b using cv by (simp add: get_current_dungeon_def)
qed

theorem build_list_overflow_counterexample:
  "build_list six_types
     \<lparr> list_dungeons =
         [[\<lparr> e_floor = 1, ent_type = 0, game_var_id = 0, param1 = 0, param2 = 0,
              continue_music = False \<rparr>]],
       interrupt_store =
         [\<lparr> st_floor = 300, st_type = 0, st_game_var = 0, st_param1 = 0, st_param2 = 0,
            st_type_text = ''Always'', st_var_name = ''VAR'', st_continue_music = False \<rparr>],
       var_names = [''VAR''], active_dungeon = Some 0, marked_modified = False \<rparr>
   = (Some OverflowError,
      \<lparr> list_dungeons = [[]],
        interrupt_store =
         [\<lparr> st_floor = 300, st_type = 0, st_game_var = 0, st_param1 = 0, st_param2 = 0,
            st_type_text = ''Always'', st_var_name = ''VAR'', st_continue_music = False \<rparr>],
        var_names = [''VAR''], active_dungeon = Some 0, marked_modified = False \<rparr>)"
  by (simp add: build_list_def get_current_dungeon_def py_modify_def convert_row_def
      u8_checked_def then_do_def)

section \<open>Properties of view switching\<close>

lemma load_view_records:
  assumes "load_view model treeiter scroll s = (None, s')"
  shows "\<exists>rs. rows_on_path model treeiter = Some rs \<and> rs \<noteq> []
      \<and> current_view_module s' = col_module (last rs)
      \<and> current_view_controller_class s' = col_class (last rs)
      \<and> current_view_item_id s' = col_item_id (last rs)"
  using assms
  by (auto simp: load_view_def lock_trees_def then_do_def call_def Let_def
      init_window_before_view_load_def split: option.splits if_splits)

lemma on_view_loaded_stale:
  assumes "get_view in_view = Inr view"
    and "current_view_module s \<noteq> Some m
       \<or> current_view_controller_class s \<noteq> Some (view_class in_view)
       \<or> current_view_item_id s \<noteq> Some item_id"
  shows "on_view_loaded sentry_id m in_view item_id s
     = (None, s\<lparr>destroyed := insert view (destroyed s)\<rparr>)"
  using assms by (auto simp: on_view_loaded_def)

lemma on_view_loaded_current:
  assumes "get_view in_view = Inr view" and "main_item_list s = Some b"
    and "current_view_module s = Some m"
    and "current_view_controller_class s = Some (view_class in_view)"
    and "current_view_item_id s = Some item_id"
  shows "\<exists>s'. on_view_loaded sentry_id m in_view item_id s = (None, s')
     \<and> loaded_view_child s' = Some view \<and> visible_child s' = LoadedView view
     \<and> current_view s' = Some in_view \<and> main_item_list s' = Some True
     \<and> (\<forall>w. loaded_view_child s = Some w \<longrightarrow> w \<in> destroyed s')"
  using assms
  by (auto simp: on_view_loaded_def unlock_trees_def then_do_def
        destroy_old_view_def unload_current_view_def call_def Let_def
        split: option.splits view_obj.splits)

lemma on_view_loaded_added_only_current:
  assumes "loaded_view_child (snd (on_view_loaded sentry_id m in_view item_id s)) = Some view"
    and "loaded_view_child s \<noteq> Some view"
  shows "get_view in_view = Inr view \<and> current_view_module s = Some m
     \<and> current_view_controller_class s = Some (view_class in_view)
     \<and> current_view_item_id s = Some item_id"
proof (cases "get_view in_view")
  case (Inl ex)
  have "loaded_view_child (snd (on_view_loaded sentry_id m in_view item_id s)) = None
      \<or> loaded_view_child (snd (on_view_loaded sentry_id m in_view item_id s)) = loaded_view_child s"
    using Inl
    by (cases in_view)
       (auto simp: on_view_loaded_def on_view_loaded_error_def unlock_trees_def then_do_def
          destroy_old_view_def unload_current_view_def call_def Let_def
          split: option.splits view_obj.splits)
  with assms show ?thesis by auto
next
  case (Inr w)
  show ?thesis
  proof (cases "current_view_module s \<noteq> Some m
       \<or> current_view_controller_class s \<noteq> Some (view_class in_view)
       \<or> current_view_item_id s \<noteq> Some item_id")
    case True
    from on_view_loaded_stale [OF Inr True] assms show ?thesis by simp
  next
    case False
    have "loaded_view_child (snd (on_view_loaded sentry_id m in_view item_id s)) = Some w"
      using Inr False
      by (auto simp: on_view_loaded_def unlock_trees_def then_do_def
          destroy_old_view_def unload_current_view_def call_def Let_def
          split: option.splits view_obj.splits)
    with assms Inr False show ?thesis by simp
  qed
qed

text \<open>
  C1, as the code has it. \<open>load_view\<close> records the module, controller class and item id
  of the selected row as the current selection. \<open>on_view_loaded\<close> obtains the view first.
  For a result whose view is obtained (the result is a widget, or its \<open>get_view()\<close>
  returns): if its module, class or item id differs from the current selection, the only
  effect is that its widget is destroyed, so the editor stack is as before; if all three
  agree, the view shown before is destroyed and the new view is the \<open>es__loaded_view\<close>
  child of the stack, visible, and the trees are unlocked. Whenever the call puts a new
  widget into the stack, that widget is the view of the result and the result agrees
  with the current selection.
\<close>

theorem on_view_loaded_last_requested_wins:
  "(\<forall>s'. load_view model treeiter scroll s = (None, s') \<longrightarrow>
       (\<exists>rs. rows_on_path model treeiter = Some rs \<and> rs \<noteq> []
          \<and> current_view_module s' = col_module (last rs)
          \<and> current_view_controller_class s' = col_class (last rs)
          \<and> current_view_item_id s' = col_item_id (last rs)))
   \<and> (\<forall>view. get_view in_view = Inr view
          \<and> (current_view_module s \<noteq> Some m
              \<or> current_view_controller_class s \<noteq> Some (view_class in_view)
              \<or> current_view_item_id s \<noteq> Some item_id) \<longrightarrow>
        on_view_loaded sentry_id m in_view item_id s
          = (None, s\<lparr>destroyed := insert view (destroyed s)\<rparr>))
   \<and> (\<forall>view b. get_view in_view = Inr view \<and> main_item_list s = Some b
          \<and> current_view_module s = Some m
          \<and> current_view_controller_class s = Some (view_class in_view)
          \<and> current_view_item_id s = Some item_id \<longrightarrow>
        (\<exists>s'. on_view_loaded sentry_id m in_view item_id s = (None, s')
           \<and> loaded_view_child s' = Some view \<and> visible_child s' = LoadedView view
           \<and> current_view s' = Some in_view \<and> main_item_list s' = Some True
           \<and> (\<forall>w. loaded_view_child s = Some w \<longrightarrow> w \<in> destroyed s')))
   \<and> (\<forall>view. loaded_view_child (snd (on_view_loaded sentry_id m in_view item_id s)) = Some view
          \<and> loaded_view_child s \<noteq> Some view \<longrightarrow>
        get_view in_view = Inr view \<and> current_view_module s = Some m
        \<and> current_view_controller_class s = Some (view_class in_view)
        \<and> current_view_item_id s = Some item_id)"
proof -
  have a: "\<forall>s'. load_view model treeiter scroll s = (None, s') \<longrightarrow>
       (\<exists>rs. rows_on_path model treeiter = Some rs \<and> rs \<noteq> []
          \<and> current_view_module s' = col_module (last rs)
          \<and> current_view_controller_class s' = col_class (last rs)
          \<and> current_view_item_id s' = col_item_id (last rs))"
    using load_view_records by blast
  have b: "\<forall>view. get_view in_view = Inr view
          \<and> (current_view_module s \<noteq> Some m
              \<or> current_view_controller_class s \<noteq> Some (view_class in_view)
              \<or> current_view_item_id s \<noteq> Some item_id) \<longrightarrow>
        on_view_loaded sentry_id m in_view item_id s
          = (None, s\<lparr>destroyed := insert view (destroyed s)\<rparr>)"
    using on_view_loaded_stale by blast
  have c: "\<forall>view b. get_view in_view = Inr view \<and> main_item_list s = Some b
          \<and> current_view_module s = Some m
          \<and> current_view_controller_class s = Some (view_class in_view)
          \<and> current_view_item_id s = Some item_id \<longrightarrow>
        (\<exists>s'. on_view_loaded sentry_id m in_view item_id s = (None, s')
           \<and> loaded_view_child s' = Some view \<and> visible_child s' = LoadedView view
           \<and> current_view s' = Some in_view \<and> main_item_list s' = Some True
           \<and> (\<forall>w. loaded_view_child s = Some w \<longrightarrow> w \<in> destroyed s'))"
    using on_view_loaded_current by blast
  have d: "\<forall>view. loaded_view_child (snd (on_view_loaded sentry_id m in_view item_id s)) = Some view
          \<and> loaded_view_child s \<noteq> Some view \<longrightarrow>
        get_view in_view = Inr view \<and> current_view_module s = Some m
        \<and> current_view_controller_class s = Some (view_class in_view)
        \<and> current_view_item_id s = Some item_id"
    using on_view_loaded_added_only_current by blast
  from a b c d show ?thesis by (intro conjI)
qed

theorem on_view_loaded_last_requested_wins_witness:
  "on_view_loaded None 2 (WidgetView 20 200) 9 showing_view
     = (None, showing_view\<lparr>destroyed := {200}\<rparr>)
   \<and> loaded_view_child (snd (on_view_loaded None 1 (WidgetView 10 101) 5 showing_view)) = Some 101
   \<and> visible_child (snd (on_view_loaded None 1 (WidgetView 10 101) 5 showing_view)) = LoadedView 101"
proof -
  have stale: "get_view (WidgetView 20 200) = Inr 200
      \<and> (current_view_module showing_view \<noteq> Some 2
          \<or> current_view_controller_class showing_view \<noteq> Some (view_class (WidgetView 20 200))
          \<or> current_view_item_id showing_view \<noteq> Some 9)"
    by (simp add: showing_view_def init_controller_def)
  from on_view_loaded_last_requested_wins
    [where s = showing_view and in_view = "WidgetView 20 200" and m = 2 and item_id = 9
       and sentry_id = None] stale
  have one: "on_view_loaded None 2 (WidgetView 20 200) 9 showing_view
      = (None, showing_view\<lparr>destroyed := insert 200 (destroyed showing_view)\<rparr>)"
    by blast
  have d: "destroyed showing_view = {}"
    by (simp add: showing_view_def init_controller_def)
  have cur: "get_view (WidgetView 10 101) = Inr 101 \<and> main_item_list showing_view = Some True
      \<and> current_view_module showing_view = Some 1
      \<and> current_view_controller_class showing_view = Some (view_class (WidgetView 10 101))
      \<and> current_view_item_id showing_view = Some 5"
    by (simp add: showing_view_def init_controller_def)
  from on_view_loaded_last_requested_wins
    [where s = showing_view and in_view = "WidgetView 10 101" and m = 1 and item_id = 5
       and sentry_id = None] cur
  obtain s' where two: "on_view_loaded None 1 (WidgetView 10 101) 5 showing_view = (None, s')"
      "loaded_view_child s' = Some 101" "visible_child s' = LoadedView 101"
    by blast
  from one d two show ?thesis by simp
qed

theorem on_view_loaded_stale_failure_counterexample:
  "current_view_module showing_view = Some 1
   \<and> loaded_view_child showing_view = Some 100
   \<and> visible_child showing_view = LoadedView 100
   \<and> fst (on_view_loaded None 2 (ControllerView 20 7 (Inl (LibraryError ''broken''))) 9 showing_view)
       = None
   \<and> visible_child
       (snd (on_view_loaded None 2 (ControllerView 20 7 (Inl (LibraryError ''broken''))) 9 showing_view))
       = Page ''es_error''
   \<and> loaded_view_child
       (snd (on_view_loaded None 2 (ControllerView 20 7 (Inl (LibraryError ''broken''))) 9 showing_view))
       = None
   \<and> destroyed
       (snd (on_view_loaded None 2 (ControllerView 20 7 (Inl (LibraryError ''broken''))) 9 showing_view))
       = {100}"
  by (simp add: showing_view_def init_controller_def on_view_loaded_def on_view_loaded_error_def
      unlock_trees_def then_do_def destroy_old_view_def unload_current_view_def call_def)

section \<open>Properties of error handling\<close>

lemma run_calls_char:
  "run_calls raises cs lg = (first_error raises cs, lg @ calls_made raises cs)"
  by (induction cs arbitrary: lg) (auto simp: first_error_def calls_made_def split: option.splits)

lemma run_calls_append:
  "run_calls raises (as @ bs) lg =
     (case run_calls raises as lg of
        (Some e, lg1) \<Rightarrow> (Some e, lg1)
      | (None, lg1) \<Rightarrow> run_calls raises bs lg1)"
  by (induction as arbitrary: lg) (auto split: option.splits)

lemma calls_made_prefix:
  "prefix (calls_made raises cs) cs"
proof -
  have "cs = takeWhile (\<lambda>c. raises c = None) cs @ dropWhile (\<lambda>c. raises c = None) cs"
    by simp
  moreover have "prefix (take 1 (dropWhile (\<lambda>c. raises c = None) cs)) (dropWhile (\<lambda>c. raises c = None) cs)"
    by (rule take_is_prefix)
  ultimately show ?thesis
    unfolding calls_made_def by (metis same_prefix_prefix)
qed

lemma calls_made_stop:
  assumes "first_error raises cs = Some e"
  shows "calls_made raises cs \<noteq> [] \<and> raises (last (calls_made raises cs)) = Some e
     \<and> (\<forall>c\<in>set (butlast (calls_made raises cs)). raises c = None)"
proof (cases "dropWhile (\<lambda>c. raises c = None) cs")
  case Nil
  with assms show ?thesis by (simp add: first_error_def)
next
  case (Cons c rest)
  with assms have e: "raises c = Some e" by (simp add: first_error_def)
  have cm: "calls_made raises cs = takeWhile (\<lambda>c. raises c = None) cs @ [c]"
    using Cons by (simp add: calls_made_def)
  have "\<forall>x\<in>set (takeWhile (\<lambda>c. raises c = None) cs). raises x = None"
    by (auto dest: set_takeWhileD)
  then show ?thesis unfolding cm using e by simp
qed

lemma first_error_None:
  "first_error raises cs = None \<Longrightarrow> calls_made raises cs = cs"
proof -
  assume a: "first_error raises cs = None"
  have "dropWhile (\<lambda>c. raises c = None) cs = []"
  proof (cases "dropWhile (\<lambda>c. raises c = None) cs")
    case Nil then show ?thesis .
  next
    case (Cons c rest)
    then have "\<not> (raises c = None)" using hd_dropWhile [of "\<lambda>c. raises c = None" cs] by simp
    with a Cons show ?thesis by (simp add: first_error_def)
  qed
  then show ?thesis
    by (metis append_Nil2 calls_made_def take_Nil takeWhile_dropWhile_id take_eq_Nil)
qed

lemma on_import_clicked_caught:
  assumes "first_error raises
      [ShowMessage ''To import select the directory of the spritesheets. If it is still zipped, unzip it first.'',
       ChooseFolder ''Import spritesheet...''] = None"
  shows "on_import_clicked item_id raises True fn lg =
     (None, lg @ [ShowMessage ''To import select the directory of the spritesheets. If it is still zipped, unzip it first.'',
                  ChooseFolder ''Import spritesheet...'']
            @ calls_made raises (import_calls item_id fn)
            @ (case first_error raises (import_calls item_id fn) of
                 None \<Rightarrow> []
               | Some e \<Rightarrow> [DisplayError e ''Error importing the spritesheet.'']))"
  unfolding on_import_clicked_def run_calls_char
  using assms first_error_None [OF assms] by (simp split: option.splits)

lemma on_export_clicked_caught:
  assumes "raises (ChooseFolder ''Export spritesheet...'') = None"
  shows "on_export_clicked item_id raises True fn lg =
     (None, lg @ [ChooseFolder ''Export spritesheet...'']
            @ calls_made raises (export_calls item_id fn)
            @ (case first_error raises (export_calls item_id fn) of
                 None \<Rightarrow> []
               | Some e \<Rightarrow> [DisplayError e ''Error exporting the spritesheet.'']))"
  unfolding on_export_clicked_def run_calls_char
  using assms by (simp add: first_error_def calls_made_def split: option.splits)

lemma on_file_opened_caught:
  assumes "rom s = Some project" and "raises InitSpriteLoader = None"
    and "main_item_list s = Some b"
    and "first_error raises (open_calls modules @ [SelectPath root_node]) = Some ex"
  shows "\<exists>s'. on_file_opened raises modules loaded root_node s = (None, s')
     \<and> loading_dialog s' = None
     \<and> main_item_list s' = main_item_list s
     \<and> visible_child s' = visible_child s
     \<and> log s' = log s @ [InitSpriteLoader, SetTitle (basename (filename project)) False]
                 @ calls_made raises (open_calls modules @ [SelectPath root_node])
                 @ [DisplayError ex ''Error opening the ROM'']"
proof -
  let ?s2 = "call (SetTitle (basename (filename project)) False) ((call InitSpriteLoader s)\<lparr>item_rows := []\<rparr>)"
  have i: "run_calls_in raises [InitSpriteLoader] s = (None, call InitSpriteLoader s)"
    using assms(2) by (simp add: run_calls_in_def call_def)
  let ?tried = "then_do (run_calls_in raises (open_calls modules) ?s2) (\<lambda>s3.
                    case main_item_list s3 of
                      None \<Rightarrow> (Some AssertionError, s3)
                    | Some b \<Rightarrow> run_calls_in raises [SelectPath root_node] (s3\<lparr>item_rows := loaded\<rparr>))"
  have whole: "run_calls raises (open_calls modules @ [SelectPath root_node]) (log ?s2)
      = (Some ex, log ?s2 @ calls_made raises (open_calls modules @ [SelectPath root_node]))"
    using assms(4) by (simp add: run_calls_char)
  have t: "\<exists>s4. ?tried = (Some ex, s4) \<and> loading_dialog s4 = loading_dialog s
      \<and> main_item_list s4 = main_item_list s \<and> visible_child s4 = visible_child s
      \<and> log s4 = log ?s2 @ calls_made raises (open_calls modules @ [SelectPath root_node])"
  proof (cases "run_calls raises (open_calls modules) (log ?s2)")
    case (Pair r lg1)
    show ?thesis
    proof (cases r)
      case None
      with Pair whole have "run_calls raises [SelectPath root_node] lg1
          = (Some ex, log ?s2 @ calls_made raises (open_calls modules @ [SelectPath root_node]))"
        by (simp add: run_calls_append)
      then show ?thesis
        using Pair None assms(3)
        by (simp add: then_do_def run_calls_in_def call_def split: option.splits)
    next
      case (Some e)
      with Pair whole have "(Some e, lg1)
          = (Some ex, log ?s2 @ calls_made raises (open_calls modules @ [SelectPath root_node]))"
        by (simp add: run_calls_append)
      then show ?thesis
        using Pair Some by (simp add: then_do_def run_calls_in_def call_def)
    qed
  qed
  then obtain s4 where s4: "?tried = (Some ex, s4)" "loading_dialog s4 = loading_dialog s"
      "main_item_list s4 = main_item_list s" "visible_child s4 = visible_child s"
      "log s4 = log ?s2 @ calls_made raises (open_calls modules @ [SelectPath root_node])"
    by blast
  have "on_file_opened raises modules loaded root_node s = (None, on_file_opened_error ex s4)"
    using assms(1) i s4(1) by (simp add: on_file_opened_def then_do_def Let_def)
  then show ?thesis
    using s4 by (simp add: on_file_opened_error_def hide_loading_dialog_def call_def)
qed

lemma on_view_loaded_get_view_escapes:
  assumes "get_view in_view = Inl ex" and "\<not> is_exception ex"
  shows "on_view_loaded sentry_id m in_view item_id s = (Some ex, s)"
  using assms by (simp add: on_view_loaded_def)

lemma on_view_loaded_get_view_fails:
  assumes "get_view in_view = Inl ex" and "is_exception ex" and "main_item_list s = Some b"
  shows "\<exists>s'. on_view_loaded sentry_id m in_view item_id s = (None, s')
     \<and> visible_child s' = Page ''es_error''
     \<and> loaded_view_child s' = None
     \<and> current_view s' = current_view s
     \<and> (\<forall>e t. DisplayError e t \<in> set (log s') \<longrightarrow> DisplayError e t \<in> set (log s))"
  using assms
  by (cases in_view)
     (auto simp: on_view_loaded_def on_view_loaded_error_def unlock_trees_def then_do_def
        destroy_old_view_def unload_current_view_def call_def Let_def
        split: option.splits view_obj.splits)

text \<open>
  C4, as the code has it. The two error callbacks of opening and saving hide the loading
  dialog and show one modal error dialog. In \<open>on_file_opened\<close>, an exception raised by a
  call inside the \<open>try\<close> is caught: the calls after the raising one are not made, the
  loading dialog is hidden, one error dialog is shown, and \<open>load_view\<close> does not run (the
  trees stay unlocked, the stack shows what it showed). In the spritesheet export and
  import handlers, once the folder was accepted, an exception raised by a call inside the
  \<open>try\<close> is caught: no later call is made and one error dialog is shown; nothing is
  retried. A run of calls always stops with the call that raises. For \<open>get_view()\<close> of a
  loaded view the handler is \<open>except Exception\<close>: an exception of class \<open>Exception\<close> is
  caught, but is shown on the error page of the editor stack, and adds no error dialog;
  an exception that is not an \<open>Exception\<close> is not caught, leaves \<open>on_view_loaded\<close>, and
  nothing is shown or changed.
\<close>

theorem library_errors_caught_and_shown:
  "on_file_opened_error ex s
     = s\<lparr>loading_dialog := None, log := log s @ [DisplayError ex ''Error opening the ROM'']\<rparr>
   \<and> on_file_saved_error ex s
     = s\<lparr>loading_dialog := None, log := log s @ [DisplayError ex ''Error saving the ROM'']\<rparr>
   \<and> (\<forall>project b. rom s = Some project \<and> raises InitSpriteLoader = None
          \<and> main_item_list s = Some b
          \<and> first_error raises (open_calls modules @ [SelectPath root_node]) = Some ex \<longrightarrow>
        (\<exists>s'. on_file_opened raises modules loaded root_node s = (None, s')
           \<and> loading_dialog s' = None
           \<and> main_item_list s' = main_item_list s
           \<and> visible_child s' = visible_child s
           \<and> log s' = log s @ [InitSpriteLoader, SetTitle (basename (filename project)) False]
                 @ calls_made raises (open_calls modules @ [SelectPath root_node])
                 @ [DisplayError ex ''Error opening the ROM'']))
   \<and> (first_error raises
        [ShowMessage ''To import select the directory of the spritesheets. If it is still zipped, unzip it first.'',
         ChooseFolder ''Import spritesheet...''] = None \<longrightarrow>
      on_import_clicked item_id raises True fn lg =
        (None, lg @ [ShowMessage ''To import select the directory of the spritesheets. If it is still zipped, unzip it first.'',
                     ChooseFolder ''Import spritesheet...'']
               @ calls_made raises (import_calls item_id fn)
               @ (case first_error raises (import_calls item_id fn) of
                    None \<Rightarrow> []
                  | Some e \<Rightarrow> [DisplayError e ''Error importing the spritesheet.''])))
   \<and> (raises (ChooseFolder ''Export spritesheet...'') = None \<longrightarrow>
      on_export_clicked item_id raises True fn lg =
        (None, lg @ [ChooseFolder ''Export spritesheet...'']
               @ calls_made raises (export_calls item_id fn)
               @ (case first_error raises (export_calls item_id fn) of
                    None \<Rightarrow> []
                  | Some e \<Rightarrow> [DisplayError e ''Error exporting the spritesheet.''])))
   \<and> (\<forall>cs. prefix (calls_made raises cs) cs
          \<and> (\<forall>e. first_error raises cs = Some e \<longrightarrow>
                calls_made raises cs \<noteq> [] \<and> raises (last (calls_made raises cs)) = Some e
                \<and> (\<forall>c\<in>set (butlast (calls_made raises cs)). raises c = None)))
   \<and> (\<forall>b. get_view in_view = Inl ex \<and> is_exception ex \<and> main_item_list s = Some b \<longrightarrow>
        (\<exists>s'. on_view_loaded sentry_id m in_view item_id s = (None, s')
           \<and> visible_child s' = Page ''es_error''
           \<and> loaded_view_child s' = None
           \<and> current_view s' = current_view s
           \<and> (\<forall>e t. DisplayError e t \<in> set (log s') \<longrightarrow> DisplayError e t \<in> set (log s))))
   \<and> (get_view in_view = Inl ex \<and> \<not> is_exception ex \<longrightarrow>
        on_view_loaded sentry_id m in_view item_id s = (Some ex, s))"
proof -
  have a: "on_file_opened_error ex s
     = s\<lparr>loading_dialog := None, log := log s @ [DisplayError ex ''Error opening the ROM'']\<rparr>"
    by (simp add: on_file_opened_error_def hide_loading_dialog_def call_def)
  have b: "on_file_saved_error ex s
     = s\<lparr>loading_dialog := None, log := log s @ [DisplayError ex ''Error saving the ROM'']\<rparr>"
    by (simp add: on_file_saved_error_def hide_loading_dialog_def call_def)
  have c: "\<forall>project b. rom s = Some project \<and> raises InitSpriteLoader = None
          \<and> main_item_list s = Some b
          \<and> first_error raises (open_calls modules @ [SelectPath root_node]) = Some ex \<longrightarrow>
        (\<exists>s'. on_file_opened raises modules loaded root_node s = (None, s')
           \<and> loading_dialog s' = None
           \<and> main_item_list s' = main_item_list s
           \<and> visible_child s' = visible_child s
           \<and> log s' = log s @ [InitSpriteLoader, SetTitle (basename (filename project)) False]
                 @ calls_made raises (open_calls modules @ [SelectPath root_node])
                 @ [DisplayError ex ''Error opening the ROM''])"
    using on_file_opened_caught by blast
  have d: "first_error raises
        [ShowMessage ''To import select the directory of the spritesheets. If it is still zipped, unzip it first.'',
         ChooseFolder ''Import spritesheet...''] = None \<longrightarrow>
      on_import_clicked item_id raises True fn lg =
        (None, lg @ [ShowMessage ''To import select the directory of the spritesheets. If it is still zipped, unzip it first.'',
                     ChooseFolder ''Import spritesheet...'']
               @ calls_made raises (import_calls item_id fn)
               @ (case first_error raises (import_calls item_id fn) of
                    None \<Rightarrow> []
                  | Some e \<Rightarrow> [DisplayError e ''Error importing the spritesheet.'']))"
    using on_import_clicked_caught by blast
  have e: "raises (ChooseFolder ''Export spritesheet...'') = None \<longrightarrow>
      on_export_clicked item_id raises True fn lg =
        (None, lg @ [ChooseFolder ''Export spritesheet...'']
               @ calls_made raises (export_calls item_id fn)
               @ (case first_error raises (export_calls item_id fn) of
                    None \<Rightarrow> []
                  | Some e \<Rightarrow> [DisplayError e ''Error exporting the spritesheet.'']))"
    using on_export_clicked_caught by blast
  have f: "\<forall>cs. prefix (calls_made raises cs) cs
          \<and> (\<forall>e. first_error raises cs = Some e \<longrightarrow>
                calls_made raises cs \<noteq> [] \<and> raises (last (calls_made raises cs)) = Some e
                \<and> (\<forall>c\<in>set (butlast (calls_made raises cs)). raises c = None))"
    using calls_made_prefix calls_made_stop by blast
  have g: "\<forall>b. get_view in_view = Inl ex \<and> is_exception ex \<and> main_item_list s = Some b \<longrightarrow>
        (\<exists>s'. on_view_loaded sentry_id m in_view item_id s = (None, s')
           \<and> visible_child s' = Page ''es_error''
           \<and> loaded_view_child s' = None
           \<and> current_view s' = current_view s
           \<and> (\<forall>e t. DisplayError e t \<in> set (log s') \<longrightarrow> DisplayError e t \<in> set (log s)))"
    using on_view_loaded_get_view_fails by blast
  have h: "get_view in_view = Inl ex \<and> \<not> is_exception ex \<longrightarrow>
        on_view_loaded sentry_id m in_view item_id s = (Some ex, s)"
    using on_view_loaded_get_view_escapes by blast
  from a b c d e f g h show ?thesis by (intro conjI)
qed

theorem library_errors_caught_and_shown_witness:
  "on_import_clicked 3 (raising (SaveGroundSprite 3) (LibraryError ''bad sprite'')) True ''/tmp/sheets'' []
     = (None,
        [ShowMessage ''To import select the directory of the spritesheets. If it is still zipped, unzip it first.'',
         ChooseFolder ''Import spritesheet...'',
         ImportSheets ''/tmp/sheets'', SplitWan,
         ShowMessage ''The spritesheet was successfully imported.'',
         SaveMonsterSprite 3, SaveGroundSprite 3,
         DisplayError (LibraryError ''bad sprite'') ''Error importing the spritesheet.''])
   \<and> on_view_loaded None 1 (ControllerView 10 7 (Inl KeyboardInterrupt)) 5 showing_view
     = (Some KeyboardInterrupt, showing_view)"
proof -
  let ?raises = "raising (SaveGroundSprite 3) (LibraryError ''bad sprite'')"
  have pre: "first_error ?raises
        [ShowMessage ''To import select the directory of the spritesheets. If it is still zipped, unzip it first.'',
         ChooseFolder ''Import spritesheet...''] = None"
    by (simp add: first_error_def raising_def)
  have fe: "first_error ?raises (import_calls 3 ''/tmp/sheets'') = Some (LibraryError ''bad sprite'')"
    by (simp add: first_error_def raising_def import_calls_def)
  have cm: "calls_made ?raises (import_calls 3 ''/tmp/sheets'')
      = [ImportSheets ''/tmp/sheets'', SplitWan,
         ShowMessage ''The spritesheet was successfully imported.'',
         SaveMonsterSprite 3, SaveGroundSprite 3]"
    by (simp add: calls_made_def raising_def import_calls_def)
  from library_errors_caught_and_shown
    [where raises = ?raises and item_id = 3 and fn = "''/tmp/sheets''" and lg = "[]"] pre
  have "on_import_clicked 3 ?raises True ''/tmp/sheets'' [] =
        (None, [] @ [ShowMessage ''To import select the directory of the spritesheets. If it is still zipped, unzip it first.'',
                     ChooseFolder ''Import spritesheet...'']
               @ calls_made ?raises (import_calls 3 ''/tmp/sheets'')
               @ (case first_error ?raises (import_calls 3 ''/tmp/sheets'') of
                    None \<Rightarrow> []
                  | Some e \<Rightarrow> [DisplayError e ''Error importing the spritesheet.'']))"
    by blast
  then have imp: "on_import_clicked 3 ?raises True ''/tmp/sheets'' []
     = (None,
        [ShowMessage ''To import select the directory of the spritesheets. If it is still zipped, unzip it first.'',
         ChooseFolder ''Import spritesheet...'',
         ImportSheets ''/tmp/sheets'', SplitWan,
         ShowMessage ''The spritesheet was successfully imported.'',
         SaveMonsterSprite 3, SaveGroundSprite 3,
         DisplayError (LibraryError ''bad sprite'') ''Error importing the spritesheet.''])"
    unfolding fe cm by simp
  have esc: "get_view (ControllerView 10 7 (Inl KeyboardInterrupt)) = Inl KeyboardInterrupt
      \<and> \<not> is_exception KeyboardInterrupt"
    by simp
  from library_errors_caught_and_shown
    [where ex = KeyboardInterrupt and in_view = "ControllerView 10 7 (Inl KeyboardInterrupt)"
       and s = showing_view and sentry_id = None and m = 1 and item_id = 5] esc
  have "on_view_loaded None 1 (ControllerView 10 7 (Inl KeyboardInterrupt)) 5 showing_view
      = (Some KeyboardInterrupt, showing_view)"
    by blast
  with imp show ?thesis by simp
qed

theorem library_error_without_dialog_counterexample:
  "log (snd (on_view_loaded None 1 (ControllerView 10 7 (Inl (LibraryError ''bad view''))) 5
                showing_view))
     = [SetErrorText (LibraryError ''bad view''), CaptureError (LibraryError ''bad view''),
        ShowReportButton False, Unload 7]
   \<and> on_import_ground_clicked 3 (raising (SaveGroundSprite 3) (LibraryError ''bad sprite'')) []
     = (Some (LibraryError ''bad sprite''), [ImportASprite, SaveGroundSprite 3])"
  by (simp add: on_import_ground_clicked_def raising_def showing_view_def init_controller_def
      on_view_loaded_def on_view_loaded_error_def unlock_trees_def then_do_def
      destroy_old_view_def unload_current_view_def call_def)

section \<open>Properties of the item filter\<close>

declare make_path_visible.simps [simp del]

lemma rows_prefix:
  "(x, m) \<in> set (rows_node p n) \<Longrightarrow> prefix p x"
  "(x, m) \<in> set (rows_rows p i cs) \<Longrightarrow> \<exists>k\<ge>i. prefix (p @ [k]) x"
proof (induction p n and p i cs arbitrary: x m and x m rule: rows_node_rows_rows.induct)
  case (1 p r cs)
  from "1.prems" have "x = p \<or> (x, m) \<in> set (rows_rows p 0 cs)" by auto
  then show ?case
  proof
    assume "x = p" then show ?thesis by simp
  next
    assume "(x, m) \<in> set (rows_rows p 0 cs)"
    from "1.IH" [OF this] obtain k where "prefix (p @ [k]) x" by blast
    then show ?thesis by (rule append_prefixD)
  qed
next
  case (2 p i)
  then show ?case by simp
next
  case (3 p i c cs)
  from "3.prems" have "(x, m) \<in> set (rows_node (p @ [i]) c) \<or> (x, m) \<in> set (rows_rows p (Suc i) cs)"
    by auto
  then show ?case
  proof
    assume "(x, m) \<in> set (rows_node (p @ [i]) c)"
    from "3.IH"(1) [OF this] show ?thesis by blast
  next
    assume "(x, m) \<in> set (rows_rows p (Suc i) cs)"
    from "3.IH"(2) [OF this] obtain k where "Suc i \<le> k" "prefix (p @ [k]) x" by blast
    then have "i \<le> k \<and> prefix (p @ [k]) x" by simp
    then show ?thesis by blast
  qed
qed

lemma siblings_apart:
  assumes "prefix (p @ [i]) x" and "prefix (p @ [k]) y" and "i \<noteq> k"
  shows "\<not> prefix x y" and "\<not> prefix y x"
proof -
  have neq: "\<not> (prefix (p @ [i]) z \<and> prefix (p @ [k]) z)" for z
  proof
    assume a: "prefix (p @ [i]) z \<and> prefix (p @ [k]) z"
    then obtain u v where "z = (p @ [i]) @ u" "z = (p @ [k]) @ v"
      by (auto simp: prefix_def)
    then have "i = k" by simp
    with assms(3) show False by simp
  qed
  show "\<not> prefix x y"
  proof
    assume "prefix x y"
    with assms(1) have "prefix (p @ [i]) y" by (rule prefix_order.trans)
    with assms(2) neq show False by blast
  qed
  show "\<not> prefix y x"
  proof
    assume "prefix y x"
    with assms(2) have "prefix (p @ [k]) x" by (rule prefix_order.trans)
    with assms(1) neq show False by blast
  qed
qed

lemma rows_rows_strict:
  assumes "(x, m) \<in> set (rows_rows p i cs)"
  shows "x \<noteq> p" and "x \<noteq> []" and "prefix p x" and "\<not> prefix x p"
proof -
  from rows_prefix(2) [OF assms] obtain k where k: "prefix (p @ [k]) x" by blast
  then obtain u where u: "x = p @ [k] @ u" by (auto simp: prefix_def)
  show "x \<noteq> p" using u by simp
  show "x \<noteq> []" using u by simp
  show "prefix p x" using u by simp
  show "\<not> prefix x p" using u by (auto simp: prefix_def)
qed

lemma make_path_visible_eq:
  "make_path_visible p s = s\<lparr>col_visible := (\<lambda>x. col_visible s x \<or> (x \<noteq> [] \<and> prefix x p))\<rparr>"
proof (induction p s rule: make_path_visible.induct)
  case (1 iter s)
  show ?case
  proof (cases "iter = []")
    case True
    then show ?thesis by (simp add: make_path_visible.simps)
  next
    case False
    let ?s1 = "s\<lparr>col_visible := (col_visible s)(iter := True)\<rparr>"
    have split: "prefix x iter \<longleftrightarrow> x = iter \<or> prefix x (butlast iter)" for x
      using False prefix_snoc [of x "butlast iter" "last iter"] by simp
    have "make_path_visible iter s = make_path_visible (butlast iter) ?s1"
      using False by (simp add: make_path_visible.simps)
    also have "\<dots> = ?s1\<lparr>col_visible := (\<lambda>x. col_visible ?s1 x \<or> (x \<noteq> [] \<and> prefix x (butlast iter)))\<rparr>"
      using "1.IH" [OF False] .
    also have "\<dots> = s\<lparr>col_visible := (\<lambda>x. col_visible s x \<or> (x \<noteq> [] \<and> prefix x iter))\<rparr>"
      using False by (auto simp: split fun_eq_iff)
    finally show ?thesis .
  qed
qed

lemma down_closed_subset:
  "down_closed S v \<Longrightarrow> T \<subseteq> S \<Longrightarrow> down_closed T v"
  unfolding down_closed_def by blast

lemma subtree_loop:
  assumes IH: "\<And>c q s. c \<in> set cs \<Longrightarrow>
      down_closed (fst ` set (rows_rows q 0 (kids c))) (col_visible s) \<Longrightarrow>
      make_subtree_visible q c s
        = s\<lparr>col_visible := (\<lambda>x. col_visible s x \<or> x \<in> fst ` set (rows_rows q 0 (kids c)))\<rparr>"
  shows "down_closed (fst ` set (rows_rows p i cs)) (col_visible s) \<Longrightarrow>
      make_subtree_visible_loop p i cs s
        = s\<lparr>col_visible := (\<lambda>x. col_visible s x \<or> x \<in> fst ` set (rows_rows p i cs))\<rparr>"
  using IH
proof (induction cs arbitrary: i s)
  case Nil
  then show ?case by simp
next
  case (Cons c cs)
  let ?sub = "p @ [i]"
  let ?C = "fst ` set (rows_node ?sub c)"
  let ?K = "fst ` set (rows_rows ?sub 0 (kids c))"
  let ?R = "fst ` set (rows_rows p (Suc i) cs)"
  let ?v = "col_visible s"
  have all: "fst ` set (rows_rows p i (c # cs)) = ?C \<union> ?R" by (simp add: image_Un)
  have C: "?C = insert ?sub ?K" by (cases c) simp
  have dc: "down_closed (?C \<union> ?R) ?v" using Cons.prems(1) all by simp
  have ih_rest: "\<And>s'. down_closed ?R (col_visible s') \<Longrightarrow>
      make_subtree_visible_loop p (Suc i) cs s'
        = s'\<lparr>col_visible := (\<lambda>x. col_visible s' x \<or> x \<in> ?R)\<rparr>"
    using Cons.IH Cons.prems(2) by simp
  have inC: "\<And>x. x \<in> ?C \<Longrightarrow> prefix ?sub x"
    using rows_prefix(1) by fastforce
  have inR: "\<And>x. x \<in> ?R \<Longrightarrow> \<exists>k\<ge>Suc i. prefix (p @ [k]) x"
    using rows_prefix(2) by fastforce
  have apart: "\<And>x y. x \<in> ?C \<Longrightarrow> y \<in> ?R \<Longrightarrow> x \<noteq> y"
  proof
    fix x y assume x: "x \<in> ?C" and y: "y \<in> ?R" and "x = y"
    from inR [OF y] obtain k where k: "Suc i \<le> k" "prefix (p @ [k]) y" by blast
    from siblings_apart(1) [OF inC [OF x] k(2)] k(1) \<open>x = y\<close> show False by simp
  qed
  show ?case
  proof (cases "?v ?sub")
    case True
    have vis_C: "\<And>x. x \<in> ?C \<Longrightarrow> ?v x"
    proof -
      fix x assume x: "x \<in> ?C"
      have "?sub \<in> ?C \<union> ?R" using C by simp
      moreover have "x \<in> ?C \<union> ?R" using x by simp
      ultimately show "?v x" using dc True inC [OF x] unfolding down_closed_def by blast
    qed
    have "make_subtree_visible_loop p i (c # cs) s = make_subtree_visible_loop p (Suc i) cs s"
      using True by (simp add: Let_def)
    also have "\<dots> = s\<lparr>col_visible := (\<lambda>x. ?v x \<or> x \<in> ?R)\<rparr>"
      by (rule ih_rest) (rule down_closed_subset [OF dc], simp)
    also have "(\<lambda>x. ?v x \<or> x \<in> ?R) = (\<lambda>x. ?v x \<or> x \<in> fst ` set (rows_rows p i (c # cs)))"
      unfolding all using vis_C by (auto simp: fun_eq_iff)
    finally show ?thesis .
  next
    case False
    let ?s1 = "s\<lparr>col_visible := (?v)(?sub := True)\<rparr>"
    have notsub: "\<And>x. x \<in> ?K \<Longrightarrow> x \<noteq> ?sub"
      using rows_rows_strict(1) by fastforce
    have dcK: "down_closed ?K (col_visible ?s1)"
      unfolding down_closed_def
    proof (intro ballI impI)
      fix d e assume d: "d \<in> ?K" and vd: "col_visible ?s1 d" and e: "e \<in> ?K" and pe: "prefix d e"
      from vd notsub [OF d] have "?v d" by simp
      moreover have "d \<in> ?C \<union> ?R" "e \<in> ?C \<union> ?R" using d e C by auto
      ultimately have "?v e" using dc pe unfolding down_closed_def by blast
      then show "col_visible ?s1 e" by simp
    qed
    let ?s2 = "make_subtree_visible ?sub c ?s1"
    have s2: "?s2 = s\<lparr>col_visible := (\<lambda>x. ?v x \<or> x \<in> ?C)\<rparr>"
    proof -
      have "?s2 = ?s1\<lparr>col_visible := (\<lambda>x. col_visible ?s1 x \<or> x \<in> ?K)\<rparr>"
        by (rule Cons.prems(2)) (simp, rule dcK)
      also have "\<dots> = s\<lparr>col_visible := (\<lambda>x. ?v x \<or> x \<in> ?C)\<rparr>"
        unfolding C by (auto simp: fun_eq_iff)
      finally show ?thesis .
    qed
    have dcR: "down_closed ?R (col_visible ?s2)"
      unfolding s2 down_closed_def
    proof (intro ballI impI)
      fix d e assume d: "d \<in> ?R" and vd: "col_visible (s\<lparr>col_visible := (\<lambda>x. ?v x \<or> x \<in> ?C)\<rparr>) d"
        and e: "e \<in> ?R" and pe: "prefix d e"
      from vd apart [OF _ d] have "?v d" by auto
      then have "?v e" using dc d e pe unfolding down_closed_def by blast
      then show "col_visible (s\<lparr>col_visible := (\<lambda>x. ?v x \<or> x \<in> ?C)\<rparr>) e" by simp
    qed
    have "make_subtree_visible_loop p i (c # cs) s = make_subtree_visible_loop p (Suc i) cs ?s2"
      using False by (simp add: Let_def)
    also have "\<dots> = ?s2\<lparr>col_visible := (\<lambda>x. col_visible ?s2 x \<or> x \<in> ?R)\<rparr>"
      by (rule ih_rest) (rule dcR)
    also have "\<dots> = s\<lparr>col_visible := (\<lambda>x. ?v x \<or> x \<in> fst ` set (rows_rows p i (c # cs)))\<rparr>"
      unfolding s2 all by (auto simp: fun_eq_iff)
    finally show ?thesis .
  qed
qed

lemma make_subtree_visible_eq:
  "down_closed (fst ` set (rows_rows p 0 (kids n))) (col_visible s) \<Longrightarrow>
     make_subtree_visible p n s
       = s\<lparr>col_visible := (\<lambda>x. col_visible s x \<or> x \<in> fst ` set (rows_rows p 0 (kids n)))\<rparr>"
proof (induction n arbitrary: p s)
  case (Node r cs)
  have "make_subtree_visible_loop p 0 cs s
        = s\<lparr>col_visible := (\<lambda>x. col_visible s x \<or> x \<in> fst ` set (rows_rows p 0 cs))\<rparr>"
  proof (rule subtree_loop)
    fix c q and s' :: main_controller assume "c \<in> set cs"
      and "down_closed (fst ` set (rows_rows q 0 (kids c))) (col_visible s')"
    then show "make_subtree_visible q c s'
        = s'\<lparr>col_visible := (\<lambda>x. col_visible s' x \<or> x \<in> fst ` set (rows_rows q 0 (kids c)))\<rparr>"
      by (rule Node.IH)
  next
    show "down_closed (fst ` set (rows_rows p 0 cs)) (col_visible s)"
      using Node.prems by simp
  qed
  then show ?case by simp
qed

lemma shown_append:
  assumes "\<And>q m x. (q, m) \<in> set C \<Longrightarrow> x \<in> fst ` set R \<Longrightarrow> \<not> prefix q x"
    and "\<And>q m x. (q, m) \<in> set R \<Longrightarrow> x \<in> fst ` set C \<Longrightarrow> \<not> prefix q x"
  shows "shown lower qry R (shown lower qry C v) = shown lower qry (C @ R) v"
proof (rule ext)
  fix x
  show "shown lower qry R (shown lower qry C v) x = shown lower qry (C @ R) v x"
  proof
    assume "shown lower qry R (shown lower qry C v) x"
    then consider "v x"
      | q m where "(q, m) \<in> set C" "text_matches lower qry m"
          "(x \<noteq> [] \<and> prefix x q) \<or> (prefix q x \<and> x \<in> fst ` set C)"
      | q m where "(q, m) \<in> set R" "text_matches lower qry m"
          "(x \<noteq> [] \<and> prefix x q) \<or> (prefix q x \<and> x \<in> fst ` set R)"
      unfolding shown_def by blast
    then show "shown lower qry (C @ R) v x"
    proof cases
      case 1
      then show ?thesis by (simp add: shown_def)
    next
      case 2
      then have "(q, m) \<in> set (C @ R) \<and> text_matches lower qry m
          \<and> ((x \<noteq> [] \<and> prefix x q) \<or> (prefix q x \<and> x \<in> fst ` set (C @ R)))"
        by auto
      then show ?thesis unfolding shown_def by blast
    next
      case 3
      then have "(q, m) \<in> set (C @ R) \<and> text_matches lower qry m
          \<and> ((x \<noteq> [] \<and> prefix x q) \<or> (prefix q x \<and> x \<in> fst ` set (C @ R)))"
        by auto
      then show ?thesis unfolding shown_def by blast
    qed
  next
    assume "shown lower qry (C @ R) v x"
    then consider "v x"
      | q m where "(q, m) \<in> set C" "text_matches lower qry m"
          "(x \<noteq> [] \<and> prefix x q) \<or> (prefix q x \<and> (x \<in> fst ` set C \<or> x \<in> fst ` set R))"
      | q m where "(q, m) \<in> set R" "text_matches lower qry m"
          "(x \<noteq> [] \<and> prefix x q) \<or> (prefix q x \<and> (x \<in> fst ` set C \<or> x \<in> fst ` set R))"
      unfolding shown_def set_append image_Un by blast
    then show "shown lower qry R (shown lower qry C v) x"
    proof cases
      case 1
      then show ?thesis by (simp add: shown_def)
    next
      case 2
      with assms(1) have "(x \<noteq> [] \<and> prefix x q) \<or> (prefix q x \<and> x \<in> fst ` set C)"
        by blast
      with 2 have "shown lower qry C v x" unfolding shown_def by blast
      then show ?thesis by (simp add: shown_def)
    next
      case 3
      with assms(2) have "(x \<noteq> [] \<and> prefix x q) \<or> (prefix q x \<and> x \<in> fst ` set R)"
        by blast
      with 3 show ?thesis unfolding shown_def by blast
    qed
  qed
qed

lemma shown_mono: "v x \<Longrightarrow> shown lower qry R v x"
  by (simp add: shown_def)

lemma shown_outside:
  assumes "\<And>q m. (q, m) \<in> set C \<Longrightarrow> \<not> prefix x q" and "x \<notin> fst ` set C"
  shows "shown lower qry C v x = v x"
  using assms unfolding shown_def by blast

lemma show_rows:
  assumes IH: "\<And>c q (s :: main_controller). c \<in> set cs \<Longrightarrow> q \<noteq> [] \<Longrightarrow> search_text s = Some qry \<Longrightarrow>
      down_closed (fst ` set (rows_node q c)) (col_visible s) \<Longrightarrow>
      foreach_node (filter__show_matches lower) q c s
        = (False, s\<lparr>col_visible := shown lower qry (rows_node q c) (col_visible s)\<rparr>)"
  shows "search_text s = Some qry \<Longrightarrow>
      down_closed (fst ` set (rows_rows p i cs)) (col_visible s) \<Longrightarrow>
      foreach_rows (filter__show_matches lower) p i cs s
        = (False, s\<lparr>col_visible := shown lower qry (rows_rows p i cs) (col_visible s)\<rparr>)"
  using IH
proof (induction cs arbitrary: i s)
  case Nil
  have "shown lower qry [] (col_visible s) = col_visible s"
    by (rule ext) (simp add: shown_def)
  then show ?case by simp
next
  case (Cons c cs)
  let ?F = "filter__show_matches lower"
  let ?C = "rows_node (p @ [i]) c"
  let ?R = "rows_rows p (Suc i) cs"
  let ?v = "col_visible s"
  have dc: "down_closed (fst ` set ?C \<union> fst ` set ?R) ?v"
    using Cons.prems(2) by (simp add: image_Un)
  have inC: "\<And>x m. (x, m) \<in> set ?C \<Longrightarrow> prefix (p @ [i]) x"
    using rows_prefix(1) by blast
  have inR: "\<And>x m. (x, m) \<in> set ?R \<Longrightarrow> \<exists>k\<ge>Suc i. prefix (p @ [k]) x"
    using rows_prefix(2) by blast
  have CR: "\<And>q m x n. (q, m) \<in> set ?C \<Longrightarrow> (x, n) \<in> set ?R \<Longrightarrow> \<not> prefix q x \<and> \<not> prefix x q"
  proof -
    fix q m x n assume q: "(q, m) \<in> set ?C" and x: "(x, n) \<in> set ?R"
    from inR [OF x] obtain k where k: "Suc i \<le> k" "prefix (p @ [k]) x" by blast
    then have "i \<noteq> k" by simp
    from siblings_apart [OF inC [OF q] k(2) this] show "\<not> prefix q x \<and> \<not> prefix x q" by simp
  qed
  let ?s1 = "s\<lparr>col_visible := shown lower qry ?C ?v\<rparr>"
  have step1: "foreach_node ?F (p @ [i]) c s = (False, ?s1)"
    by (rule Cons.prems(3)) (simp, simp, rule Cons.prems(1), rule down_closed_subset [OF dc], simp)
  have same: "\<And>d. d \<in> fst ` set ?R \<Longrightarrow> shown lower qry ?C ?v d = ?v d"
  proof (rule shown_outside)
    fix d q m assume d: "d \<in> fst ` set ?R" and q: "(q, m) \<in> set ?C"
    from d obtain n where "(d, n) \<in> set ?R" by auto
    from CR [OF q this] show "\<not> prefix d q" by simp
  next
    fix d assume d: "d \<in> fst ` set ?R"
    then obtain n where n: "(d, n) \<in> set ?R" by auto
    show "d \<notin> fst ` set ?C"
    proof
      assume "d \<in> fst ` set ?C"
      then obtain m where "(d, m) \<in> set ?C" by auto
      from CR [OF this n] show False by simp
    qed
  qed
  have dcR: "down_closed (fst ` set ?R) (col_visible ?s1)"
    unfolding down_closed_def
  proof (intro ballI impI)
    fix d e assume d: "d \<in> fst ` set ?R" and vd: "col_visible ?s1 d"
      and e: "e \<in> fst ` set ?R" and pe: "prefix d e"
    from vd same [OF d] have "?v d" by simp
    then have "?v e" using dc d e pe unfolding down_closed_def by blast
    then show "col_visible ?s1 e" by (simp add: shown_mono)
  qed
  have st1: "search_text ?s1 = Some qry" using Cons.prems(1) by simp
  have ih: "\<And>c q (s :: main_controller). c \<in> set cs \<Longrightarrow> q \<noteq> [] \<Longrightarrow> search_text s = Some qry \<Longrightarrow>
      down_closed (fst ` set (rows_node q c)) (col_visible s) \<Longrightarrow>
      foreach_node ?F q c s
        = (False, s\<lparr>col_visible := shown lower qry (rows_node q c) (col_visible s)\<rparr>)"
    using Cons.prems(3) by simp
  have step2: "foreach_rows ?F p (Suc i) cs ?s1
      = (False, ?s1\<lparr>col_visible := shown lower qry ?R (col_visible ?s1)\<rparr>)"
    using Cons.IH [OF st1 dcR ih] .
  have app: "shown lower qry ?R (shown lower qry ?C ?v) = shown lower qry (?C @ ?R) ?v"
  proof (rule shown_append)
    fix q m x assume "(q, m) \<in> set ?C" "x \<in> fst ` set ?R"
    then show "\<not> prefix q x" using CR by fastforce
  next
    fix q m x assume "(q, m) \<in> set ?R" "x \<in> fst ` set ?C"
    then show "\<not> prefix q x" using CR by fastforce
  qed
  have "foreach_rows ?F p i (c # cs) s = foreach_rows ?F p (Suc i) cs ?s1"
    using step1 by simp
  also have "\<dots> = (False, s\<lparr>col_visible := shown lower qry ?R (shown lower qry ?C ?v)\<rparr>)"
    using step2 by simp
  finally show ?case unfolding app by simp
qed

lemma shown_node:
  assumes "p \<noteq> []"
  shows "shown lower qry (rows_rows p 0 cs)
           (if text_matches lower qry (Node r cs)
            then (\<lambda>x. (v x \<or> (x \<noteq> [] \<and> prefix x p)) \<or> x \<in> fst ` set (rows_rows p 0 cs))
            else v)
         = shown lower qry (rows_node p (Node r cs)) v"
proof (rule ext)
  fix x
  let ?K = "rows_rows p 0 cs"
  let ?n = "Node r cs"
  have K1: "\<And>q m. (q, m) \<in> set ?K \<Longrightarrow> \<not> prefix q p"
    using rows_rows_strict(4) by blast
  have K2: "\<And>q. q \<in> fst ` set ?K \<Longrightarrow> prefix p q"
    using rows_rows_strict(3) by fastforce
  have kid_part: "(\<exists>(q, m)\<in>set ?K. text_matches lower qry m
        \<and> ((x \<noteq> [] \<and> prefix x q) \<or> (prefix q x \<and> x \<in> fst ` set (rows_node p ?n))))
     \<longleftrightarrow> (\<exists>(q, m)\<in>set ?K. text_matches lower qry m
        \<and> ((x \<noteq> [] \<and> prefix x q) \<or> (prefix q x \<and> x \<in> fst ` set ?K)))"
    using K1 by auto
  have unfold: "shown lower qry (rows_node p ?n) v x \<longleftrightarrow>
      v x \<or> (text_matches lower qry ?n
              \<and> ((x \<noteq> [] \<and> prefix x p) \<or> (prefix p x \<and> x \<in> fst ` set (rows_node p ?n))))
        \<or> (\<exists>(q, m)\<in>set ?K. text_matches lower qry m
        \<and> ((x \<noteq> [] \<and> prefix x q) \<or> (prefix q x \<and> x \<in> fst ` set (rows_node p ?n))))"
    unfolding shown_def by auto
  have self: "(x \<noteq> [] \<and> prefix x p) \<or> (prefix p x \<and> x \<in> fst ` set (rows_node p ?n))
      \<longleftrightarrow> (x \<noteq> [] \<and> prefix x p) \<or> x \<in> fst ` set ?K"
    using assms K2 by auto
  show "shown lower qry ?K
           (if text_matches lower qry ?n
            then (\<lambda>x. (v x \<or> (x \<noteq> [] \<and> prefix x p)) \<or> x \<in> fst ` set ?K)
            else v) x
         = shown lower qry (rows_node p ?n) v x"
  proof (cases "text_matches lower qry ?n")
    case True
    have "shown lower qry ?K (\<lambda>x. (v x \<or> (x \<noteq> [] \<and> prefix x p)) \<or> x \<in> fst ` set ?K) x
        \<longleftrightarrow> v x \<or> ((x \<noteq> [] \<and> prefix x p) \<or> x \<in> fst ` set ?K)
            \<or> (\<exists>(q, m)\<in>set ?K. text_matches lower qry m
                \<and> ((x \<noteq> [] \<and> prefix x q) \<or> (prefix q x \<and> x \<in> fst ` set ?K)))"
      unfolding shown_def by blast
    then show ?thesis
      unfolding unfold kid_part using True self by simp
  next
    case False
    have "shown lower qry ?K v x
        \<longleftrightarrow> v x \<or> (\<exists>(q, m)\<in>set ?K. text_matches lower qry m
                \<and> ((x \<noteq> [] \<and> prefix x q) \<or> (prefix q x \<and> x \<in> fst ` set ?K)))"
      unfolding shown_def by blast
    then show ?thesis
      unfolding unfold kid_part using False by simp
  qed
qed

lemma shown_node_match:
  assumes "p \<noteq> []" and "text_matches lower qry (Node r cs)"
  shows "shown lower qry (rows_rows p 0 cs)
           (\<lambda>x. v x \<or> x \<noteq> [] \<and> prefix x p \<or> x \<in> fst ` set (rows_rows p 0 cs))
         = shown lower qry (rows_node p (Node r cs)) v"
proof -
  have "(\<lambda>x. v x \<or> x \<noteq> [] \<and> prefix x p \<or> x \<in> fst ` set (rows_rows p 0 cs))
      = (\<lambda>x. (v x \<or> (x \<noteq> [] \<and> prefix x p)) \<or> x \<in> fst ` set (rows_rows p 0 cs))"
    by (rule ext) blast
  then show ?thesis
    using shown_node [OF assms(1), where lower = lower and qry = qry and cs = cs and r = r and v = v]
      assms(2) by (simp only: if_True)
qed

lemma shown_node_nomatch:
  assumes "p \<noteq> []" and "\<not> text_matches lower qry (Node r cs)"
  shows "shown lower qry (rows_rows p 0 cs) v = shown lower qry (rows_node p (Node r cs)) v"
  using shown_node [OF assms(1), where lower = lower and qry = qry and cs = cs and r = r and v = v]
    assms(2) by (simp only: if_False)

lemma show_node:
  "p \<noteq> [] \<Longrightarrow> search_text s = Some qry \<Longrightarrow>
     down_closed (fst ` set (rows_node p n)) (col_visible s) \<Longrightarrow>
     foreach_node (filter__show_matches lower) p n s
       = (False, s\<lparr>col_visible := shown lower qry (rows_node p n) (col_visible s)\<rparr>)"
proof (induction n arbitrary: p s)
  case (Node r cs)
  let ?F = "filter__show_matches lower"
  let ?n = "Node r cs"
  let ?K = "rows_rows p 0 cs"
  let ?v = "col_visible s"
  have dcK: "down_closed (fst ` set ?K) ?v"
    by (rule down_closed_subset [OF Node.prems(3)]) auto
  have ih: "\<And>c q (s :: main_controller). c \<in> set cs \<Longrightarrow> q \<noteq> [] \<Longrightarrow> search_text s = Some qry \<Longrightarrow>
      down_closed (fst ` set (rows_node q c)) (col_visible s) \<Longrightarrow>
      foreach_node ?F q c s
        = (False, s\<lparr>col_visible := shown lower qry (rows_node q c) (col_visible s)\<rparr>)"
    using Node.IH by blast
  show ?case
  proof (cases "text_matches lower qry ?n")
    case True
    let ?v1 = "\<lambda>x. ?v x \<or> (x \<noteq> [] \<and> prefix x p)"
    let ?s1 = "s\<lparr>col_visible := ?v1\<rparr>"
    let ?v2 = "\<lambda>x. ?v x \<or> x \<noteq> [] \<and> prefix x p \<or> x \<in> fst ` set ?K"
    let ?s2 = "s\<lparr>col_visible := ?v2\<rparr>"
    have same: "\<And>d. d \<in> fst ` set ?K \<Longrightarrow> ?v1 d = ?v d"
      using rows_rows_strict(4) by fastforce
    have dc1: "down_closed (fst ` set (rows_rows p 0 (kids ?n))) (col_visible ?s1)"
      unfolding down_closed_def
    proof (intro ballI impI)
      fix d e assume d: "d \<in> fst ` set (rows_rows p 0 (kids ?n))" and vd: "col_visible ?s1 d"
        and e: "e \<in> fst ` set (rows_rows p 0 (kids ?n))" and pe: "prefix d e"
      from d e have d': "d \<in> fst ` set ?K" and e': "e \<in> fst ` set ?K" by simp_all
      from d' vd same have "?v d" by simp
      then have "?v e" using dcK d' e' pe unfolding down_closed_def by blast
      then show "col_visible ?s1 e" by simp
    qed
    have sub: "make_subtree_visible p ?n (make_path_visible p s) = ?s2"
      unfolding make_path_visible_eq make_subtree_visible_eq [OF dc1] by simp
    have cb: "?F p ?n s = (False, ?s2)"
      using True Node.prems(2) sub by (simp add: filter__show_matches_def)
    have dc2: "down_closed (fst ` set ?K) (col_visible ?s2)"
      unfolding down_closed_def by simp
    have st2: "search_text ?s2 = Some qry" using Node.prems(2) by simp
    have fin: "shown lower qry ?K ?v2 = shown lower qry (rows_node p ?n) ?v"
      by (rule shown_node_match [OF Node.prems(1) True])
    have "foreach_node ?F p ?n s = foreach_rows ?F p 0 cs ?s2"
      using cb by simp
    also have "\<dots> = (False, ?s2\<lparr>col_visible := shown lower qry ?K (col_visible ?s2)\<rparr>)"
      using show_rows [OF ih st2 dc2] by simp
    also have "\<dots> = (False, s\<lparr>col_visible := shown lower qry ?K ?v2\<rparr>)"
      by simp
    finally show ?thesis unfolding fin .
  next
    case False
    have cb: "?F p ?n s = (False, s)"
      using False Node.prems(2) by (simp add: filter__show_matches_def)
    have fin: "shown lower qry ?K ?v = shown lower qry (rows_node p ?n) ?v"
      by (rule shown_node_nomatch [OF Node.prems(1) False])
    have "foreach_node ?F p ?n s = foreach_rows ?F p 0 cs s"
      using cb by simp
    also have "\<dots> = (False, s\<lparr>col_visible := shown lower qry ?K ?v\<rparr>)"
      using show_rows [OF ih Node.prems(2) dcK] by simp
    finally show ?thesis unfolding fin .
  qed
qed

lemma show_store:
  assumes "search_text s = Some qry"
    and "down_closed (fst ` set (rows_rows p i cs)) (col_visible s)"
  shows "foreach_rows (filter__show_matches lower) p i cs s
        = (False, s\<lparr>col_visible := shown lower qry (rows_rows p i cs) (col_visible s)\<rparr>)"
  by (rule show_rows [OF _ assms]) (rule show_node)

lemma reset_rows:
  assumes IH: "\<And>c q (s :: main_controller). c \<in> set cs \<Longrightarrow>
      foreach_node (filter__reset_row b) q c s
        = (False, s\<lparr>col_visible :=
             (\<lambda>x. if x \<in> fst ` set (rows_node q c) then b else col_visible s x)\<rparr>)"
  shows "foreach_rows (filter__reset_row b) p i cs s
        = (False, s\<lparr>col_visible :=
             (\<lambda>x. if x \<in> fst ` set (rows_rows p i cs) then b else col_visible s x)\<rparr>)"
  using IH
proof (induction cs arbitrary: i s)
  case Nil
  then show ?case by simp
next
  case (Cons c cs)
  let ?C = "fst ` set (rows_node (p @ [i]) c)"
  let ?R = "fst ` set (rows_rows p (Suc i) cs)"
  let ?s1 = "s\<lparr>col_visible := (\<lambda>x. if x \<in> ?C then b else col_visible s x)\<rparr>"
  have step1: "foreach_node (filter__reset_row b) (p @ [i]) c s = (False, ?s1)"
    by (rule Cons.prems) simp
  have step2: "foreach_rows (filter__reset_row b) p (Suc i) cs ?s1
      = (False, ?s1\<lparr>col_visible := (\<lambda>x. if x \<in> ?R then b else col_visible ?s1 x)\<rparr>)"
    by (rule Cons.IH) (rule Cons.prems, simp)
  have "foreach_rows (filter__reset_row b) p i (c # cs) s
      = foreach_rows (filter__reset_row b) p (Suc i) cs ?s1"
    using step1 by simp
  also have "\<dots> = (False, s\<lparr>col_visible :=
             (\<lambda>x. if x \<in> fst ` set (rows_rows p i (c # cs)) then b else col_visible s x)\<rparr>)"
    unfolding step2 by (auto simp: fun_eq_iff image_Un)
  finally show ?case .
qed

lemma reset_node:
  "foreach_node (filter__reset_row b) p n s
     = (False, s\<lparr>col_visible :=
          (\<lambda>x. if x \<in> fst ` set (rows_node p n) then b else col_visible s x)\<rparr>)"
proof (induction n arbitrary: p s)
  case (Node r cs)
  let ?s0 = "s\<lparr>col_visible := (col_visible s)(p := b)\<rparr>"
  have ih: "\<And>c q (s :: main_controller). c \<in> set cs \<Longrightarrow>
      foreach_node (filter__reset_row b) q c s
        = (False, s\<lparr>col_visible :=
             (\<lambda>x. if x \<in> fst ` set (rows_node q c) then b else col_visible s x)\<rparr>)"
    using Node.IH by blast
  have "foreach_node (filter__reset_row b) p (Node r cs) s
      = foreach_rows (filter__reset_row b) p 0 cs ?s0"
    by (simp add: filter__reset_row_def)
  also have "\<dots> = (False, ?s0\<lparr>col_visible :=
             (\<lambda>x. if x \<in> fst ` set (rows_rows p 0 cs) then b else col_visible ?s0 x)\<rparr>)"
    by (rule reset_rows [OF ih])
  also have "\<dots> = (False, s\<lparr>col_visible :=
          (\<lambda>x. if x \<in> fst ` set (rows_node p (Node r cs)) then b else col_visible s x)\<rparr>)"
    by (auto simp: fun_eq_iff)
  finally show ?case .
qed

lemma reset_store:
  "foreach (filter__reset_row b) ns s
     = s\<lparr>col_visible := (\<lambda>x. if x \<in> fst ` set (store_rows ns) then b else col_visible s x)\<rparr>"
  unfolding foreach_def store_rows_def
  using reset_rows [where b = b and cs = ns and p = "[]" and i = 0 and s = s, OF reset_node]
  by simp

lemma expand_rows:
  assumes IH: "\<And>c q (s :: main_controller). c \<in> set cs \<Longrightarrow>
      snd (foreach_node (filter__expand_all_visible lower) q c s)
        = s\<lparr>log := log (snd (foreach_node (filter__expand_all_visible lower) q c s))\<rparr>"
  shows "snd (foreach_rows (filter__expand_all_visible lower) p i cs s)
        = s\<lparr>log := log (snd (foreach_rows (filter__expand_all_visible lower) p i cs s))\<rparr>"
  using IH
proof (induction cs arbitrary: i s)
  case Nil
  then show ?case by simp
next
  case (Cons c cs)
  let ?F = "filter__expand_all_visible lower"
  obtain st s1 where n: "foreach_node ?F (p @ [i]) c s = (st, s1)"
    by (cases "foreach_node ?F (p @ [i]) c s")
  have "snd (foreach_node ?F (p @ [i]) c s)
      = s\<lparr>log := log (snd (foreach_node ?F (p @ [i]) c s))\<rparr>"
    by (rule Cons.prems) simp
  then have s1: "s1 = s\<lparr>log := log s1\<rparr>" using n by simp
  show ?case
  proof (cases st)
    case True
    then show ?thesis using n s1 by simp
  next
    case False
    have "snd (foreach_rows ?F p (Suc i) cs s1)
        = s1\<lparr>log := log (snd (foreach_rows ?F p (Suc i) cs s1))\<rparr>"
      by (rule Cons.IH) (rule Cons.prems, simp)
    then have "snd (foreach_rows ?F p (Suc i) cs s1)
        = s\<lparr>log := log (snd (foreach_rows ?F p (Suc i) cs s1))\<rparr>"
      by (subst (asm) (2) s1) simp
    then show ?thesis using n False by simp
  qed
qed

lemma expand_node:
  "snd (foreach_node (filter__expand_all_visible lower) p n s)
     = s\<lparr>log := log (snd (foreach_node (filter__expand_all_visible lower) p n s))\<rparr>"
proof (induction n arbitrary: p s)
  case (Node r cs)
  let ?F = "filter__expand_all_visible lower"
  have ih: "\<And>c q (s :: main_controller). c \<in> set cs \<Longrightarrow>
      snd (foreach_node ?F q c s) = s\<lparr>log := log (snd (foreach_node ?F q c s))\<rparr>"
    using Node.IH by blast
  obtain st s1 where cb: "?F p (Node r cs) s = (st, s1)"
    by (cases "?F p (Node r cs) s")
  then have s1: "s1 = s\<lparr>log := log s1\<rparr>"
    by (auto simp: filter__expand_all_visible_def call_def split: option.splits if_splits)
  show ?case
  proof (cases st)
    case True
    then show ?thesis using cb s1 by simp
  next
    case False
    have "snd (foreach_rows ?F p 0 cs s1) = s1\<lparr>log := log (snd (foreach_rows ?F p 0 cs s1))\<rparr>"
      by (rule expand_rows [OF ih])
    then have "snd (foreach_rows ?F p 0 cs s1) = s\<lparr>log := log (snd (foreach_rows ?F p 0 cs s1))\<rparr>"
      by (subst (asm) (2) s1) simp
    then show ?thesis using cb False by simp
  qed
qed

lemma expand_store:
  "foreach (filter__expand_all_visible lower) ns s
     = s\<lparr>log := log (foreach (filter__expand_all_visible lower) ns s)\<rparr>"
  unfolding foreach_def by (rule expand_rows [OF expand_node])

lemma show_none:
  assumes "search_text s = None"
  shows "foreach (filter__show_matches lower) ns s = s"
proof (cases ns)
  case Nil
  then show ?thesis by (simp add: foreach_def)
next
  case (Cons c cs)
  obtain r k where c: "c = Node r k" by (cases c)
  show ?thesis
    using assms by (simp add: foreach_def Cons c filter__show_matches_def)
qed

lemma rows_functional:
  "(x, m) \<in> set (rows_node p n) \<Longrightarrow> (x, m') \<in> set (rows_node p n) \<Longrightarrow> m = m'"
  "(x, m) \<in> set (rows_rows p i cs) \<Longrightarrow> (x, m') \<in> set (rows_rows p i cs) \<Longrightarrow> m = m'"
proof (induction p n and p i cs arbitrary: x m m' and x m m' rule: rows_node_rows_rows.induct)
  case (1 p r cs)
  show ?case
  proof (cases "x = p")
    case True
    with "1.prems" rows_rows_strict(1) [of x _ p 0 cs] show ?thesis by auto
  next
    case False
    with "1.prems" have "(x, m) \<in> set (rows_rows p 0 cs)" "(x, m') \<in> set (rows_rows p 0 cs)"
      by auto
    then show ?thesis by (rule "1.IH")
  qed
next
  case (2 p i)
  then show ?case by simp
next
  case (3 p i c cs)
  have apart: "\<And>a b. (x, a) \<in> set (rows_node (p @ [i]) c) \<Longrightarrow> (x, b) \<in> set (rows_rows p (Suc i) cs) \<Longrightarrow> False"
  proof -
    fix a b assume a: "(x, a) \<in> set (rows_node (p @ [i]) c)" and b: "(x, b) \<in> set (rows_rows p (Suc i) cs)"
    from rows_prefix(2) [OF b] obtain k where k: "Suc i \<le> k" "prefix (p @ [k]) x" by blast
    then have "i \<noteq> k" by simp
    from siblings_apart(1) [OF rows_prefix(1) [OF a] k(2) this] show False by simp
  qed
  from "3.prems" have
    "((x, m) \<in> set (rows_node (p @ [i]) c) \<or> (x, m) \<in> set (rows_rows p (Suc i) cs))"
    "((x, m') \<in> set (rows_node (p @ [i]) c) \<or> (x, m') \<in> set (rows_rows p (Suc i) cs))"
    by auto
  then show ?case
    using apart "3.IH" by blast
qed

lemma refresh_query:
  assumes "search_text s = Some qry" and "qry \<noteq> []"
    and "main_item_list s = Some b" and "main_item_filter s"
  shows "fst (filter__refresh_results lower s) = None"
    and "item_rows (snd (filter__refresh_results lower s)) = item_rows s"
    and "x \<in> fst ` set (store_rows (item_rows s)) \<Longrightarrow>
         col_visible (snd (filter__refresh_results lower s)) x
           \<longleftrightarrow> (\<exists>(q, m)\<in>set (store_rows (item_rows s)).
                 text_matches lower qry m \<and> (prefix x q \<or> prefix q x))"
proof -
  let ?ns = "item_rows s"
  let ?P = "fst ` set (store_rows ?ns)"
  let ?s1 = "call CollapseAll s"
  let ?v0 = "\<lambda>x. if x \<in> ?P then False else col_visible s x"
  let ?s2 = "?s1\<lparr>col_visible := ?v0\<rparr>"
  let ?s3 = "?s2\<lparr>col_visible := shown lower qry (store_rows ?ns) ?v0\<rparr>"
  let ?s4 = "foreach (filter__expand_all_visible lower) (filter_rows (col_visible ?s3) [] 0 ?ns) ?s3"
  have r1: "foreach (filter__reset_row False) (item_rows ?s1) ?s1 = ?s2"
    unfolding reset_store by (simp add: call_def)
  have dc: "down_closed (fst ` set (rows_rows [] 0 ?ns)) (col_visible ?s2)"
    unfolding down_closed_def by (simp add: store_rows_def)
  have st: "search_text ?s2 = Some qry" using assms(1) by (simp add: call_def)
  have r2: "foreach (filter__show_matches lower) (item_rows ?s2) ?s2 = ?s3"
    unfolding foreach_def using show_store [OF st dc, of lower]
    by (simp add: call_def store_rows_def)
  have run: "filter__refresh_results lower s = (None, ?s4)"
    using assms unfolding filter__refresh_results_def Let_def r1 r2
    by (simp add: call_def)
  have s4: "?s4 = ?s3\<lparr>log := log ?s4\<rparr>" by (rule expand_store)
  show "fst (filter__refresh_results lower s) = None" unfolding run by simp
  have "item_rows ?s4 = item_rows ?s3" by (subst s4) simp
  then show "item_rows (snd (filter__refresh_results lower s)) = item_rows s"
    unfolding run by (simp add: call_def)
  have cv: "col_visible ?s4 = shown lower qry (store_rows ?ns) ?v0"
    by (subst s4) simp
  assume x: "x \<in> ?P"
  then have "x \<noteq> []" using rows_rows_strict(2) [of x _ "[]" 0 ?ns]
    by (auto simp: store_rows_def)
  with x show "col_visible (snd (filter__refresh_results lower s)) x
           \<longleftrightarrow> (\<exists>(q, m)\<in>set (store_rows ?ns).
                 text_matches lower qry m \<and> (prefix x q \<or> prefix q x))"
    unfolding run snd_conv cv shown_def by simp
qed

lemma refresh_empty:
  assumes "search_text s = Some []"
  shows "filter__refresh_results lower s
     = (None, s\<lparr>col_visible :=
          (\<lambda>x. if x \<in> fst ` set (store_rows (item_rows s)) then True else col_visible s x)\<rparr>)"
  using assms by (simp add: filter__refresh_results_def reset_store)

lemma refresh_none:
  assumes "search_text s = None" and "main_item_list s = Some b" and "main_item_filter s"
  shows "fst (filter__refresh_results lower s) = None"
    and "item_rows (snd (filter__refresh_results lower s)) = item_rows s"
    and "x \<in> fst ` set (store_rows (item_rows s)) \<Longrightarrow>
         \<not> col_visible (snd (filter__refresh_results lower s)) x"
proof -
  let ?ns = "item_rows s"
  let ?P = "fst ` set (store_rows ?ns)"
  let ?s1 = "call CollapseAll s"
  let ?v0 = "\<lambda>x. if x \<in> ?P then False else col_visible s x"
  let ?s2 = "?s1\<lparr>col_visible := ?v0\<rparr>"
  let ?s4 = "foreach (filter__expand_all_visible lower) (filter_rows (col_visible ?s2) [] 0 ?ns) ?s2"
  have r1: "foreach (filter__reset_row False) (item_rows ?s1) ?s1 = ?s2"
    unfolding reset_store by (simp add: call_def)
  have st: "search_text ?s2 = None" using assms(1) by (simp add: call_def)
  have r2: "foreach (filter__show_matches lower) (item_rows ?s2) ?s2 = ?s2"
    by (rule show_none [OF st])
  have run: "filter__refresh_results lower s = (None, ?s4)"
    using assms unfolding filter__refresh_results_def Let_def r1 r2
    by (simp add: call_def)
  have s4: "?s4 = ?s2\<lparr>log := log ?s4\<rparr>" by (rule expand_store)
  show "fst (filter__refresh_results lower s) = None" unfolding run by simp
  have "item_rows ?s4 = item_rows ?s2" by (subst s4) simp
  then show "item_rows (snd (filter__refresh_results lower s)) = item_rows s"
    unfolding run by (simp add: call_def)
  have cv: "col_visible ?s4 = ?v0" by (subst s4) simp
  assume "x \<in> ?P"
  then show "\<not> col_visible (snd (filter__refresh_results lower s)) x"
    unfolding run snd_conv cv by simp
qed

lemma refresh_ran:
  assumes "fst (filter__refresh_results lower s) = None" and "search_text s \<noteq> Some []"
  shows "\<exists>b. main_item_list s = Some b" and "main_item_filter s"
  using assms by (auto simp: filter__refresh_results_def split: if_splits)

text \<open>
  C3. After \<open>_filter__refresh_results\<close> with an empty search text every row of the store
  is visible. With a non-empty search text (and the item views connected, so that the
  assertions hold) a row is visible exactly when its label contains the search text,
  both lower-cased, or the label of one of its ancestors does, or the label of one of
  its descendants does. The rows of the store are as before.
\<close>

theorem filter_matches_with_ancestors_and_descendants:
  "(search_text s = Some [] \<longrightarrow>
      fst (filter__refresh_results lower s) = None
      \<and> item_rows (snd (filter__refresh_results lower s)) = item_rows s
      \<and> (\<forall>(p, n)\<in>set (store_rows (item_rows s)).
            col_visible (snd (filter__refresh_results lower s)) p))
   \<and> (\<forall>qry b. search_text s = Some qry \<and> qry \<noteq> [] \<and> main_item_list s = Some b
         \<and> main_item_filter s \<longrightarrow>
      fst (filter__refresh_results lower s) = None
      \<and> item_rows (snd (filter__refresh_results lower s)) = item_rows s
      \<and> (\<forall>(p, n)\<in>set (store_rows (item_rows s)).
            col_visible (snd (filter__refresh_results lower s)) p
              \<longleftrightarrow> text_matches lower qry n
                \<or> (\<exists>(q, m)\<in>set (store_rows (item_rows s)).
                      strict_prefix q p \<and> text_matches lower qry m)
                \<or> (\<exists>(q, m)\<in>set (store_rows (item_rows s)).
                      strict_prefix p q \<and> text_matches lower qry m)))"
proof (intro conjI impI allI)
  assume e: "search_text s = Some []"
  show "fst (filter__refresh_results lower s) = None"
    unfolding refresh_empty [OF e] by simp
  show "item_rows (snd (filter__refresh_results lower s)) = item_rows s"
    unfolding refresh_empty [OF e] by simp
  show "\<forall>(p, n)\<in>set (store_rows (item_rows s)).
            col_visible (snd (filter__refresh_results lower s)) p"
    unfolding refresh_empty [OF e] by force
next
  fix qry b
  assume a: "search_text s = Some qry \<and> qry \<noteq> [] \<and> main_item_list s = Some b
         \<and> main_item_filter s"
  then have h: "search_text s = Some qry" "qry \<noteq> []" "main_item_list s = Some b"
    "main_item_filter s" by simp_all
  note rq = refresh_query [OF h, where lower = lower]
  show "fst (filter__refresh_results lower s) = None" by (rule rq(1))
  show "item_rows (snd (filter__refresh_results lower s)) = item_rows s" by (rule rq(2))
  let ?R = "set (store_rows (item_rows s))"
  let ?v = "col_visible (snd (filter__refresh_results lower s))"
  show "\<forall>(p, n)\<in>?R. ?v p
              \<longleftrightarrow> text_matches lower qry n
                \<or> (\<exists>(q, m)\<in>?R. strict_prefix q p \<and> text_matches lower qry m)
                \<or> (\<exists>(q, m)\<in>?R. strict_prefix p q \<and> text_matches lower qry m)"
  proof (intro ballI, clarify)
    fix p n assume pn: "(p, n) \<in> ?R"
    then have "p \<in> fst ` ?R" by force
    from rq(3) [OF this]
    have v: "?v p \<longleftrightarrow> (\<exists>(q, m)\<in>?R. text_matches lower qry m \<and> (prefix p q \<or> prefix q p))" .
    have same: "\<And>m. (p, m) \<in> ?R \<Longrightarrow> m = n"
      using rows_functional(2) pn unfolding store_rows_def by blast
    show "?v p
              \<longleftrightarrow> text_matches lower qry n
                \<or> (\<exists>(q, m)\<in>?R. strict_prefix q p \<and> text_matches lower qry m)
                \<or> (\<exists>(q, m)\<in>?R. strict_prefix p q \<and> text_matches lower qry m)"
    proof
      assume "?v p"
      with v obtain q m where qm: "(q, m) \<in> ?R" "text_matches lower qry m"
          "prefix p q \<or> prefix q p" by blast
      show "text_matches lower qry n
                \<or> (\<exists>(q, m)\<in>?R. strict_prefix q p \<and> text_matches lower qry m)
                \<or> (\<exists>(q, m)\<in>?R. strict_prefix p q \<and> text_matches lower qry m)"
      proof (cases "q = p")
        case True
        with qm same show ?thesis by blast
      next
        case False
        with qm(3) have "strict_prefix p q \<or> strict_prefix q p"
          by (auto simp: strict_prefix_def)
        with qm(1,2) show ?thesis by blast
      qed
    next
      assume "text_matches lower qry n
                \<or> (\<exists>(q, m)\<in>?R. strict_prefix q p \<and> text_matches lower qry m)
                \<or> (\<exists>(q, m)\<in>?R. strict_prefix p q \<and> text_matches lower qry m)"
      then have "\<exists>(q, m)\<in>?R. text_matches lower qry m \<and> (prefix p q \<or> prefix q p)"
        using pn by (auto simp: strict_prefix_def)
      with v show "?v p" by simp
    qed
  qed
qed

text \<open>
  C2. Whenever \<open>_filter__refresh_results\<close> returns (for any search text, set or not, and
  any item tree), every row of the store whose \<open>COL_VISIBLE\<close> flag is set has the flag of
  each of its ancestors set as well.
\<close>

theorem visible_rows_have_visible_ancestors:
  "fst (filter__refresh_results lower s) = None \<longrightarrow>
     item_rows (snd (filter__refresh_results lower s)) = item_rows s
     \<and> (\<forall>(p, n)\<in>set (store_rows (item_rows s)).
          col_visible (snd (filter__refresh_results lower s)) p \<longrightarrow>
          (\<forall>(q, m)\<in>set (store_rows (item_rows s)).
             strict_prefix q p \<longrightarrow> col_visible (snd (filter__refresh_results lower s)) q))"
proof
  assume ran: "fst (filter__refresh_results lower s) = None"
  let ?R = "set (store_rows (item_rows s))"
  let ?v = "col_visible (snd (filter__refresh_results lower s))"
  consider (empty) "search_text s = Some []"
    | (none) "search_text s = None"
    | (query) qry where "search_text s = Some qry" "qry \<noteq> []"
    by (cases "search_text s") auto
  then show "item_rows (snd (filter__refresh_results lower s)) = item_rows s
     \<and> (\<forall>(p, n)\<in>?R. ?v p \<longrightarrow> (\<forall>(q, m)\<in>?R. strict_prefix q p \<longrightarrow> ?v q))"
  proof cases
    case empty
    show ?thesis unfolding refresh_empty [OF empty] by force
  next
    case none
    then have ne: "search_text s \<noteq> Some []" by simp
    from refresh_ran [OF ran ne] obtain b where b: "main_item_list s = Some b" "main_item_filter s"
      by blast
    note rn = refresh_none [OF none b, where lower = lower]
    have "\<forall>(p, n)\<in>?R. \<not> ?v p"
      using rn(3) by force
    with rn(2) show ?thesis by blast
  next
    case query
    then have ne: "search_text s \<noteq> Some []" by simp
    from refresh_ran [OF ran ne] obtain b where b: "main_item_list s = Some b" "main_item_filter s"
      by blast
    note rq = refresh_query [OF query b, where lower = lower]
    have "\<forall>(p, n)\<in>?R. ?v p \<longrightarrow> (\<forall>(q, m)\<in>?R. strict_prefix q p \<longrightarrow> ?v q)"
    proof (intro ballI, clarify)
      fix p n q m assume pn: "(p, n) \<in> ?R" and vp: "?v p" and qm: "(q, m) \<in> ?R"
        and anc: "strict_prefix q p"
      from pn have "p \<in> fst ` ?R" by force
      from rq(3) [OF this] vp obtain q' m' where m': "(q', m') \<in> ?R" "text_matches lower qry m'"
          "prefix p q' \<or> prefix q' p" by blast
      from anc have qp: "prefix q p" by (simp add: strict_prefix_def)
      have "prefix q q' \<or> prefix q' q"
      proof (cases "prefix p q'")
        case True
        with qp show ?thesis using prefix_order.trans by blast
      next
        case False
        with m'(3) have "prefix q' p" by simp
        with qp show ?thesis using prefix_same_cases by blast
      qed
      with m'(1,2) have "\<exists>(q', m')\<in>?R. text_matches lower qry m' \<and> (prefix q q' \<or> prefix q' q)"
        by blast
      moreover from qm have "q \<in> fst ` ?R" by force
      ultimately show "?v q" using rq(3) by blast
    qed
    with rq(2) show ?thesis by blast
  qed
qed

lemma example_rows:
  "store_rows (item_rows (searching qry))
     = [([0], Node (item_row ''Dungeons'')
               [Node (item_row ''Beach Cave'') [], Node (item_row ''Drenched Bluff'') []]),
        ([0, 0], Node (item_row ''Beach Cave'') []),
        ([0, 1], Node (item_row ''Drenched Bluff'') []),
        ([1], Node (item_row ''Sprites'') [Node (item_row ''Pikachu'') []]),
        ([1, 0], Node (item_row ''Pikachu'') [])]"
  by (simp add: searching_def example_tree_def store_rows_def)

lemma example_matches_cave:
  "\<not> text_matches ascii_lower ''CAVE'' (Node (item_row ''Dungeons'') cs)"
  "text_matches ascii_lower ''CAVE'' (Node (item_row ''Beach Cave'') cs)"
  "\<not> text_matches ascii_lower ''CAVE'' (Node (item_row ''Drenched Bluff'') cs)"
  "\<not> text_matches ascii_lower ''CAVE'' (Node (item_row ''Sprites'') cs)"
  "\<not> text_matches ascii_lower ''CAVE'' (Node (item_row ''Pikachu'') cs)"
  by (simp_all add: text_matches_def ascii_lower_def item_row_def sublist_code)

lemma example_matches_pika:
  "\<not> text_matches ascii_lower ''pika'' (Node (item_row ''Dungeons'') cs)"
  "\<not> text_matches ascii_lower ''pika'' (Node (item_row ''Beach Cave'') cs)"
  "\<not> text_matches ascii_lower ''pika'' (Node (item_row ''Drenched Bluff'') cs)"
  "\<not> text_matches ascii_lower ''pika'' (Node (item_row ''Sprites'') cs)"
  "text_matches ascii_lower ''pika'' (Node (item_row ''Pikachu'') cs)"
  by (simp_all add: text_matches_def ascii_lower_def item_row_def sublist_code)

theorem filter_matches_with_ancestors_and_descendants_witness:
  "search_text (searching ''CAVE'') = Some ''CAVE'' \<and> ''CAVE'' \<noteq> []
   \<and> main_item_list (searching ''CAVE'') = Some True \<and> main_item_filter (searching ''CAVE'')
   \<and> col_visible (snd (filter__refresh_results ascii_lower (searching ''CAVE''))) [0]
   \<and> col_visible (snd (filter__refresh_results ascii_lower (searching ''CAVE''))) [0, 0]
   \<and> \<not> col_visible (snd (filter__refresh_results ascii_lower (searching ''CAVE''))) [0, 1]
   \<and> \<not> col_visible (snd (filter__refresh_results ascii_lower (searching ''CAVE''))) [1]
   \<and> \<not> col_visible (snd (filter__refresh_results ascii_lower (searching ''CAVE''))) [1, 0]"
proof -
  let ?s = "searching ''CAVE''"
  let ?v = "col_visible (snd (filter__refresh_results ascii_lower ?s))"
  have h: "search_text ?s = Some ''CAVE'' \<and> ''CAVE'' \<noteq> []
      \<and> main_item_list ?s = Some True \<and> main_item_filter ?s"
    by (simp add: searching_def init_controller_def)
  from filter_matches_with_ancestors_and_descendants [where s = ?s and lower = ascii_lower] h
  have "\<forall>(p, n)\<in>set (store_rows (item_rows ?s)).
            ?v p \<longleftrightarrow> text_matches ascii_lower ''CAVE'' n
                \<or> (\<exists>(q, m)\<in>set (store_rows (item_rows ?s)).
                      strict_prefix q p \<and> text_matches ascii_lower ''CAVE'' m)
                \<or> (\<exists>(q, m)\<in>set (store_rows (item_rows ?s)).
                      strict_prefix p q \<and> text_matches ascii_lower ''CAVE'' m)"
    by blast
  then have "?v [0] \<and> ?v [0, 0] \<and> \<not> ?v [0, 1] \<and> \<not> ?v [1] \<and> \<not> ?v [1, 0]"
    unfolding example_rows by (simp add: example_matches_cave)
  with h show ?thesis by simp
qed

theorem visible_rows_have_visible_ancestors_witness:
  "fst (filter__refresh_results ascii_lower (searching ''pika'')) = None
   \<and> col_visible (snd (filter__refresh_results ascii_lower (searching ''pika''))) [1, 0]
   \<and> col_visible (snd (filter__refresh_results ascii_lower (searching ''pika''))) [1]"
proof -
  let ?s = "searching ''pika''"
  let ?v = "col_visible (snd (filter__refresh_results ascii_lower ?s))"
  have h: "search_text ?s = Some ''pika''" "''pika'' \<noteq> []"
      "main_item_list ?s = Some True" "main_item_filter ?s"
    by (simp_all add: searching_def init_controller_def)
  have ran: "fst (filter__refresh_results ascii_lower ?s) = None"
    by (rule refresh_query(1) [OF h])
  have "[1, 0] \<in> fst ` set (store_rows (item_rows ?s))"
    unfolding example_rows by simp
  from refresh_query(3) [OF h this, where lower = ascii_lower]
  have leaf: "?v [1, 0]"
    unfolding example_rows by (simp add: example_matches_pika)
  from visible_rows_have_visible_ancestors [where s = ?s and lower = ascii_lower] ran
  have "\<forall>(p, n)\<in>set (store_rows (item_rows ?s)).
          ?v p \<longrightarrow> (\<forall>(q, m)\<in>set (store_rows (item_rows ?s)). strict_prefix q p \<longrightarrow> ?v q)"
    by blast
  then have "?v [1, 0] \<longrightarrow> ?v [1]"
    unfolding example_rows by simp
  with ran leaf show ?thesis by simp
qed

end
